theory Spec2Isabelle
  imports Complex_Main "HOL-Library.Multiset"
begin

section \<open>JavaScript numbers\<close>

text \<open>
  A JavaScript number is modelled as a real number or one of the three special values of
  IEEE 754. Arithmetic on finite values is exact real arithmetic: rounding to 53 bits and
  overflow are not modelled, and the two zeros are one value (every zero divisor in the
  functions below is a positive zero). The special values follow IEEE 754: a division by
  zero gives an infinity or \<open>NaN\<close>, \<open>0 * Infinity\<close> is \<open>NaN\<close>, and \<open>NaN\<close> propagates.
\<close>

datatype jsnum = Fin real | PInf | NInf | NaN

instantiation jsnum :: "{plus, minus, uminus, times, inverse}"
begin

fun uminus_jsnum :: "jsnum \<Rightarrow> jsnum" where
  "uminus_jsnum (Fin a) = Fin (- a)"
| "uminus_jsnum PInf = NInf"
| "uminus_jsnum NInf = PInf"
| "uminus_jsnum NaN = NaN"

fun plus_jsnum :: "jsnum \<Rightarrow> jsnum \<Rightarrow> jsnum" where
  "plus_jsnum (Fin a) (Fin b) = Fin (a + b)"
| "plus_jsnum NaN _ = NaN"
| "plus_jsnum _ NaN = NaN"
| "plus_jsnum PInf NInf = NaN"
| "plus_jsnum NInf PInf = NaN"
| "plus_jsnum PInf _ = PInf"
| "plus_jsnum _ PInf = PInf"
| "plus_jsnum NInf _ = NInf"
| "plus_jsnum _ NInf = NInf"

definition minus_jsnum :: "jsnum \<Rightarrow> jsnum \<Rightarrow> jsnum" where
  "minus_jsnum a b = a + (- b)"

fun times_jsnum :: "jsnum \<Rightarrow> jsnum \<Rightarrow> jsnum" where
  "times_jsnum (Fin a) (Fin b) = Fin (a * b)"
| "times_jsnum NaN _ = NaN"
| "times_jsnum _ NaN = NaN"
| "times_jsnum (Fin a) PInf = (if a = 0 then NaN else if 0 < a then PInf else NInf)"
| "times_jsnum (Fin a) NInf = (if a = 0 then NaN else if 0 < a then NInf else PInf)"
| "times_jsnum PInf (Fin b) = (if b = 0 then NaN else if 0 < b then PInf else NInf)"
| "times_jsnum NInf (Fin b) = (if b = 0 then NaN else if 0 < b then NInf else PInf)"
| "times_jsnum PInf PInf = PInf"
| "times_jsnum PInf NInf = NInf"
| "times_jsnum NInf PInf = NInf"
| "times_jsnum NInf NInf = PInf"

fun divide_jsnum :: "jsnum \<Rightarrow> jsnum \<Rightarrow> jsnum" where
  "divide_jsnum (Fin a) (Fin b) =
     (if b = 0 then (if a = 0 then NaN else if 0 < a then PInf else NInf) else Fin (a / b))"
| "divide_jsnum NaN _ = NaN"
| "divide_jsnum _ NaN = NaN"
| "divide_jsnum (Fin a) _ = Fin 0"
| "divide_jsnum PInf (Fin b) = (if 0 \<le> b then PInf else NInf)"
| "divide_jsnum NInf (Fin b) = (if 0 \<le> b then NInf else PInf)"
| "divide_jsnum _ _ = NaN"

definition inverse_jsnum :: "jsnum \<Rightarrow> jsnum" where
  "inverse_jsnum a = divide (Fin 1) a"

instance ..

end

text \<open>\<open>Number.isFinite\<close> on a number.\<close>

fun isFinite :: "jsnum \<Rightarrow> bool" where
  "isFinite (Fin a) = True"
| "isFinite _ = False"

text \<open>The comparisons \<open><\<close> and \<open><=\<close>: false as soon as one side is \<open>NaN\<close>.\<close>

fun js_lt :: "jsnum \<Rightarrow> jsnum \<Rightarrow> bool" where
  "js_lt (Fin a) (Fin b) = (a < b)"
| "js_lt NaN _ = False"
| "js_lt _ NaN = False"
| "js_lt _ NInf = False"
| "js_lt PInf _ = False"
| "js_lt _ _ = True"

fun js_le :: "jsnum \<Rightarrow> jsnum \<Rightarrow> bool" where
  "js_le (Fin a) (Fin b) = (a \<le> b)"
| "js_le NaN _ = False"
| "js_le _ NaN = False"
| "js_le NInf _ = True"
| "js_le _ PInf = True"
| "js_le _ _ = False"

text \<open>Truthiness of a number (\<open>0\<close> and \<open>NaN\<close> are falsy) and \<open>a || b\<close> on numbers.\<close>

definition truthy :: "jsnum \<Rightarrow> bool" where
  "truthy a = (a \<noteq> Fin 0 \<and> a \<noteq> NaN)"

definition js_or :: "jsnum \<Rightarrow> jsnum \<Rightarrow> jsnum" where
  "js_or a b = (if truthy a then a else b)"

text \<open>\<open>Math.max\<close>, \<open>Math.min\<close> of two numbers, \<open>Math.round\<close> (halves go up),
  \<open>Math.sqrt\<close>, \<open>Math.abs\<close>, \<open>Math.cos\<close>, \<open>Math.sin\<close>.\<close>

definition Math_max :: "jsnum \<Rightarrow> jsnum \<Rightarrow> jsnum" where
  "Math_max a b = (if a = NaN \<or> b = NaN then NaN else if js_lt a b then b else a)"

definition Math_min :: "jsnum \<Rightarrow> jsnum \<Rightarrow> jsnum" where
  "Math_min a b = (if a = NaN \<or> b = NaN then NaN else if js_lt b a then b else a)"

fun Math_round :: "jsnum \<Rightarrow> jsnum" where
  "Math_round (Fin a) = Fin (of_int \<lfloor>a + 1 / 2\<rfloor>)"
| "Math_round v = v"

fun Math_sqrt :: "jsnum \<Rightarrow> jsnum" where
  "Math_sqrt (Fin a) = (if a < 0 then NaN else Fin (sqrt a))"
| "Math_sqrt PInf = PInf"
| "Math_sqrt _ = NaN"

fun Math_abs :: "jsnum \<Rightarrow> jsnum" where
  "Math_abs (Fin a) = Fin \<bar>a\<bar>"
| "Math_abs NaN = NaN"
| "Math_abs _ = PInf"

fun Math_cos :: "jsnum \<Rightarrow> jsnum" where
  "Math_cos (Fin a) = Fin (cos a)"
| "Math_cos _ = NaN"

fun Math_sin :: "jsnum \<Rightarrow> jsnum" where
  "Math_sin (Fin a) = Fin (sin a)"
| "Math_sin _ = NaN"

definition Math_PI :: jsnum where
  "Math_PI = Fin pi"

section \<open>Array.prototype.sort with a comparator\<close>

text \<open>
  \<open>xs.sort(cmp)\<close> is stable, and a comparator result that is \<open>NaN\<close> counts as \<open>0\<close>.
  For a consistent comparator the result of a stable sort is determined, so the model is
  an insertion sort: \<open>before cmp a b\<close> says that \<open>cmp(a, b)\<close> is not positive, that is,
  \<open>a\<close> may stay in front of \<open>b\<close>.
\<close>

definition before :: "('a \<Rightarrow> 'a \<Rightarrow> jsnum) \<Rightarrow> 'a \<Rightarrow> 'a \<Rightarrow> bool" where
  "before cmp a b = (case cmp a b of Fin v \<Rightarrow> v \<le> 0 | PInf \<Rightarrow> False | NInf \<Rightarrow> True | NaN \<Rightarrow> True)"

fun insort_by :: "('a \<Rightarrow> 'a \<Rightarrow> jsnum) \<Rightarrow> 'a \<Rightarrow> 'a list \<Rightarrow> 'a list" where
  "insort_by cmp x [] = [x]"
| "insort_by cmp x (y # ys) = (if before cmp x y then x # y # ys else y # insort_by cmp x ys)"

fun array_sort :: "('a \<Rightarrow> 'a \<Rightarrow> jsnum) \<Rightarrow> 'a list \<Rightarrow> 'a list" where
  "array_sort cmp [] = []"
| "array_sort cmp (x # xs) = insort_by cmp x (array_sort cmp xs)"

text \<open>A comparator that is total and transitive on a set of elements.\<close>

definition consistent_on :: "'a set \<Rightarrow> ('a \<Rightarrow> 'a \<Rightarrow> jsnum) \<Rightarrow> bool" where
  "consistent_on A cmp =
     ((\<forall>a\<in>A. \<forall>b\<in>A. before cmp a b \<or> before cmp b a) \<and>
      (\<forall>a\<in>A. \<forall>b\<in>A. \<forall>c\<in>A. before cmp a b \<longrightarrow> before cmp b c \<longrightarrow> before cmp a c))"

section \<open>BarView2: the vote statistics of a group\<close>

text \<open>
  A row of the candidate table after \<open>loadCandidateData\<close>: the party code, the
  candidate's name and the vote count. The two field names of the source are not ASCII
  and are written \<open>cand_name\<close> and \<open>cand_votes\<close> here. The count is the number parsed
  from the table, \<open>NaN\<close> when the field does not parse.
\<close>

record candidate =
  partyId :: string
  cand_name :: string
  cand_votes :: jsnum

text \<open>The vote counts of a group, each count \<open>|| 0\<close>.\<close>

definition sideVotes :: "candidate list \<Rightarrow> jsnum list" where
  "sideVotes cs = map (\<lambda>d. js_or (cand_votes d) (Fin 0)) cs"

text \<open>\<open>[...sideVotes].sort((a, b) => a - b)\<close>\<close>

definition sortedVotes :: "candidate list \<Rightarrow> jsnum list" where
  "sortedVotes cs = array_sort (\<lambda>a b. a - b) (sideVotes cs)"

text \<open>
  The median of \<open>drawBarChart\<close>, computed by the same expression for the left side
  (\<open>leftMedianVotes\<close>) and for the right side (\<open>dppMedianVotes\<close>). Both indices are in
  range in the branch that reads them.
\<close>

definition medianVotes :: "candidate list \<Rightarrow> jsnum" where
  "medianVotes cs =
     (let s = sortedVotes cs; n = length s in
      if n > 0
      then (if n mod 2 = 0
            then (s ! (n div 2 - 1) + s ! (n div 2)) / Fin 2
            else s ! (n div 2))
      else Fin 0)"

text \<open>A candidate row for the examples below.\<close>

definition mkCandidate :: "string \<Rightarrow> jsnum \<Rightarrow> candidate" where
  "mkCandidate p v = \<lparr>partyId = p, cand_name = ''name'', cand_votes = v\<rparr>"

section \<open>MapTab: the grid layout\<close>

text \<open>
  A GeoJSON feature, reduced to the two properties the layout reads. \<open>None\<close> stands for a
  property that is absent or is not a number.
\<close>

record feature =
  grid_x :: "jsnum option"
  grid_y :: "jsnum option"

text \<open>\<open>Number.isFinite\<close> on a property value.\<close>

definition isFiniteProp :: "jsnum option \<Rightarrow> bool" where
  "isFiniteProp v = (case v of None \<Rightarrow> False | Some n \<Rightarrow> isFinite n)"

text \<open>A value used as an operand of arithmetic: \<open>undefined\<close> becomes \<open>NaN\<close>.\<close>

definition toNumber :: "jsnum option \<Rightarrow> jsnum" where
  "toNumber v = (case v of None \<Rightarrow> NaN | Some n \<Rightarrow> n)"

text \<open>
  \<open>d3.min\<close> and \<open>d3.max\<close> of the d3 library: one pass over the values that skips
  \<open>undefined\<close> and \<open>NaN\<close>; the result is \<open>undefined\<close> when nothing is left.
\<close>

definition d3_min :: "jsnum option list \<Rightarrow> jsnum option" where
  "d3_min vs =
     fold (\<lambda>value m. case value of
                        None \<Rightarrow> m
                      | Some v \<Rightarrow> (case m of
                                     None \<Rightarrow> if js_le v v then Some v else m
                                   | Some mv \<Rightarrow> if js_lt v mv then Some v else m))
          vs None"

definition d3_max :: "jsnum option list \<Rightarrow> jsnum option" where
  "d3_max vs =
     fold (\<lambda>value m. case value of
                        None \<Rightarrow> m
                      | Some v \<Rightarrow> (case m of
                                     None \<Rightarrow> if js_le v v then Some v else m
                                   | Some mv \<Rightarrow> if js_lt mv v then Some v else m))
          vs None"

record gridLayoutConfig =
  minX :: "jsnum option"
  maxX :: "jsnum option"
  minY :: "jsnum option"
  maxY :: "jsnum option"
  cellSize :: jsnum
  offsetX :: jsnum
  offsetY :: jsnum

text \<open>The features that carry finite \<open>grid_x\<close> and \<open>grid_y\<close>.\<close>

definition gridsWithXY :: "feature list \<Rightarrow> feature list" where
  "gridsWithXY features = filter (\<lambda>f. isFiniteProp (grid_x f) \<and> isFiniteProp (grid_y f)) features"

text \<open>\<open>Math.max(maxX - minX + 1, 1)\<close>\<close>

definition gridRange :: "jsnum option list \<Rightarrow> jsnum" where
  "gridRange vs = Math_max (toNumber (d3_max vs) - toNumber (d3_min vs) + Fin 1) (Fin 1)"

text \<open>
  The cell size: the grid is scaled by one factor on both axes, so that the bounding box
  of the cells fits into the viewport less a padding of 40 pixels on every side.
\<close>

definition padding :: jsnum where
  "padding = Fin 40"

definition gridCellSize :: "feature list \<Rightarrow> jsnum \<Rightarrow> jsnum \<Rightarrow> jsnum" where
  "gridCellSize grids svgWidth svgHeight =
     (let availableWidth = Math_max (svgWidth - padding * Fin 2) (Fin 0);
          availableHeight = Math_max (svgHeight - padding * Fin 2) (Fin 0);
          rangeX = gridRange (map grid_x grids);
          rangeY = gridRange (map grid_y grids)
      in Math_min (availableWidth / rangeX) (availableHeight / rangeY))"

text \<open>
  \<open>drawHexGridOnly\<close>, up to the assignment of \<open>gridLayoutConfig\<close>: the result is the value
  the function leaves in that variable, \<open>None\<close> for \<open>null\<close>. The three early returns are
  the three \<open>None\<close> branches. The viewport size is read from the SVG element or from the
  container and is an input here. The model starts after the first check of the function,
  which returns at once when the drawing group or the data is missing.
\<close>

definition drawHexGridOnly :: "feature list \<Rightarrow> jsnum \<Rightarrow> jsnum \<Rightarrow> gridLayoutConfig option" where
  "drawHexGridOnly features svgWidth svgHeight =
     (let grids = gridsWithXY features in
      if length grids = 0 then None
      else if \<not> isFinite svgWidth \<or> \<not> isFinite svgHeight \<or> svgWidth = Fin 0 \<or> svgHeight = Fin 0
      then None
      else
        let rangeX = gridRange (map grid_x grids);
            rangeY = gridRange (map grid_y grids);
            cellSize = gridCellSize grids svgWidth svgHeight
        in if \<not> isFinite cellSize \<or> js_le cellSize (Fin 0) then None
           else
             let actualWidth = cellSize * rangeX;
                 actualHeight = cellSize * rangeY
             in Some \<lparr>minX = d3_min (map grid_x grids), maxX = d3_max (map grid_x grids),
                      minY = d3_min (map grid_y grids), maxY = d3_max (map grid_y grids),
                      cellSize = cellSize,
                      offsetX = (svgWidth - actualWidth) / Fin 2,
                      offsetY = (svgHeight - actualHeight) / Fin 2\<rparr>)"

text \<open>The feature of a grid cell with finite coordinates.\<close>

definition cellFeature :: "real \<times> real \<Rightarrow> feature" where
  "cellFeature c = \<lparr>grid_x = Some (Fin (fst c)), grid_y = Some (Fin (snd c))\<rparr>"

section \<open>The parliament view: seat positions\<close>

text \<open>\<open>d3.sum\<close> of the d3 library: the sum of the values that are neither \<open>0\<close> nor \<open>NaN\<close>.\<close>

definition d3_sum :: "jsnum list \<Rightarrow> jsnum" where
  "d3_sum vs = fold (\<lambda>value s. if truthy value then s + value else s) vs (Fin 0)"

text \<open>
  A seat position as \<open>generateParliamentSeats\<close> pushes it, and the seat once the last loop
  has added its number.
\<close>

record coords =
  seat_x :: jsnum
  seat_y :: jsnum
  seat_r :: jsnum
  theta :: jsnum
  row :: nat

record seat = coords +
  number :: nat

text \<open>
  \<open>arcLengths.map((len, i) => ...)\<close> with the running total \<open>seatsAllocated\<close>: every row but
  the last gets the rounded share of its arc, the last row gets what is left of
  \<open>totalSeats\<close>.
\<close>

fun rowCountsFrom :: "jsnum \<Rightarrow> nat \<Rightarrow> jsnum \<Rightarrow> nat \<Rightarrow> jsnum \<Rightarrow> jsnum list \<Rightarrow> jsnum list" where
  "rowCountsFrom totalSeats rowCount totalArcLength i seatsAllocated [] = []"
| "rowCountsFrom totalSeats rowCount totalArcLength i seatsAllocated (len # rest) =
     (if int i = int rowCount - 1
      then (totalSeats - seatsAllocated)
             # rowCountsFrom totalSeats rowCount totalArcLength (i + 1) seatsAllocated rest
      else let cnt = Math_round (totalSeats * (len / totalArcLength))
           in cnt # rowCountsFrom totalSeats rowCount totalArcLength (i + 1)
                        (seatsAllocated + cnt) rest)"

text \<open>
  The number of rounds of \<open>for (let i = 0; i < count; i++)\<close>: the number of naturals below
  \<open>count\<close>. The loop does not run for \<open>NaN\<close>, and it never ends for \<open>Infinity\<close>
  (\<open>None\<close>).
\<close>

fun iterations :: "jsnum \<Rightarrow> nat option" where
  "iterations (Fin c) = Some (nat \<lceil>c\<rceil>)"
| "iterations PInf = None"
| "iterations _ = Some 0"

text \<open>The seats of one row, from left (angle \<open>pi\<close>) to right; \<open>k\<close> is the number of rounds.\<close>

definition rowSeats :: "jsnum \<Rightarrow> nat \<Rightarrow> jsnum \<Rightarrow> nat \<Rightarrow> coords list" where
  "rowSeats r rowIndex cnt k =
     (let angleStep = Math_PI / js_or (cnt - Fin 1) (Fin 1)
      in map (\<lambda>i. let angle = Math_PI - Fin (real i) * angleStep
                  in \<lparr>seat_x = r * Math_cos angle, seat_y = r * Math_sin angle, seat_r = r,
                      theta = angle, row = rowIndex\<rparr>)
             [0..<k])"

text \<open>\<open>rowCounts.forEach((count, rowIndex) => ...)\<close>, reading \<open>radii[rowIndex]\<close>.\<close>

fun allRowSeats :: "jsnum list \<Rightarrow> jsnum list \<Rightarrow> nat \<Rightarrow> coords list option" where
  "allRowSeats (r # radii) (cnt # cnts) rowIndex =
     (case iterations cnt of
        None \<Rightarrow> None
      | Some k \<Rightarrow> (case allRowSeats radii cnts (rowIndex + 1) of
                     None \<Rightarrow> None
                   | Some rest \<Rightarrow> Some (rowSeats r rowIndex cnt k @ rest)))"
| "allRowSeats _ _ rowIndex = Some []"

text \<open>\<open>seats.forEach((seat, index) => { seat.number = index + 1 })\<close>\<close>

definition numberSeats :: "coords list \<Rightarrow> seat list" where
  "numberSeats seats =
     map (\<lambda>(index, s). \<lparr>seat_x = seat_x s, seat_y = seat_y s, seat_r = seat_r s,
                          theta = theta s, row = row s, number = index + 1\<rparr>)
         (enumerate 0 seats)"

text \<open>The row radii and the seat counts of the rows.\<close>

definition rowRadii :: "nat \<Rightarrow> jsnum \<Rightarrow> jsnum \<Rightarrow> jsnum list" where
  "rowRadii rowCount innerRadius outerRadius =
     (let step = (outerRadius - innerRadius) / Fin (real rowCount - 1)
      in map (\<lambda>i. innerRadius + Fin (real i) * step) [0..<rowCount])"

definition rowCounts :: "int \<Rightarrow> nat \<Rightarrow> jsnum list \<Rightarrow> jsnum list" where
  "rowCounts totalSeats rowCount radii =
     (let arcLengths = map (\<lambda>r. Math_PI * r) radii;
          totalArcLength = d3_sum arcLengths
      in rowCountsFrom (Fin (of_int totalSeats)) rowCount totalArcLength 0 (Fin 0) arcLengths)"

text \<open>
  \<open>generateParliamentSeats\<close>. The result is \<open>None\<close> when a row loop does not end. The seat
  total is an integer; the radii are any numbers.
\<close>

definition generateParliamentSeats :: "int \<Rightarrow> nat \<Rightarrow> jsnum \<Rightarrow> jsnum \<Rightarrow> seat list option" where
  "generateParliamentSeats totalSeats rowCount innerRadius outerRadius =
     (let radii = rowRadii rowCount innerRadius outerRadius
      in case allRowSeats radii (rowCounts totalSeats rowCount radii) 0 of
           None \<Rightarrow> None
         | Some seats \<Rightarrow> Some (numberSeats (array_sort (\<lambda>a b. theta b - theta a) seats)))"

section \<open>The parliament view: parties\<close>

text \<open>An entry of \<open>partyData\<close>.\<close>

record partyInfo =
  party_id :: string
  party_name :: string
  party_count :: nat
  party_color :: string

text \<open>A seat with its party: \<open>{...seatCoords[i], party, partyName, color, partySeatNumber}\<close>.\<close>

record partySeat = seat +
  party :: string
  partyName :: string
  color :: string
  partySeatNumber :: nat

definition assignSeat :: "seat \<Rightarrow> partyInfo \<Rightarrow> nat \<Rightarrow> partySeat" where
  "assignSeat s p n =
     \<lparr>seat_x = seat_x s, seat_y = seat_y s, seat_r = seat_r s, theta = theta s, row = row s,
      number = number s, party = party_id p, partyName = party_name p, color = party_color p,
      partySeatNumber = n\<rparr>"

text \<open>\<open>centerIndex - 1\<close> with \<open>centerIndex = Math.floor(seatCoords.length / 2)\<close>.\<close>

definition indStartIndex :: "nat \<Rightarrow> int" where
  "indStartIndex n = int (n div 2) - 1"

text \<open>
  One round of the first loop: the centre party takes the seat at \<open>indStartIndex + i\<close> when
  that index is inside the array.
\<close>

definition centerStep :: "seat list \<Rightarrow> partyInfo \<Rightarrow> nat \<Rightarrow> partySeat option list \<Rightarrow> partySeat option list" where
  "centerStep seatCoords indParty i finalData =
     (let seatIndex = indStartIndex (length seatCoords) + int i
      in if 0 \<le> seatIndex \<and> seatIndex < int (length seatCoords)
         then finalData[nat seatIndex := Some (assignSeat (seatCoords ! nat seatIndex) indParty (i + 1))]
         else finalData)"

text \<open>
  One round of the second and of the third loop, on the array and the party's running seat
  number: the seat at \<open>i\<close> is taken when it is still \<open>null\<close> and the party has seats left.
  An index outside the array reads \<open>undefined\<close>, which is not \<open>null\<close>.
\<close>

definition fillStep :: "seat list \<Rightarrow> partyInfo \<Rightarrow> int \<Rightarrow> partySeat option list \<times> nat \<Rightarrow> partySeat option list \<times> nat" where
  "fillStep seatCoords p i st =
     (case st of (finalData, seatNumber) \<Rightarrow>
        if 0 \<le> i \<and> i < int (length finalData) \<and> finalData ! nat i = None \<and> seatNumber \<le> party_count p
        then (finalData[nat i := Some (assignSeat (seatCoords ! nat i) p seatNumber)], seatNumber + 1)
        else (finalData, seatNumber))"

text \<open>
  The assignment of \<open>drawParliamentSeats\<close>: the centre party from \<open>indStartIndex\<close> on, the
  second party leftwards from \<open>indStartIndex - 1\<close> down to 0, the third party rightwards
  from \<open>indStartIndex + indParty.count\<close> to the end. The result is \<open>finalData\<close>, with \<open>None\<close>
  for \<open>null\<close>.
\<close>

definition assignParties :: "seat list \<Rightarrow> partyInfo \<Rightarrow> partyInfo \<Rightarrow> partyInfo \<Rightarrow> partySeat option list" where
  "assignParties seatCoords indParty dppParty kmtParty =
     (let n = length seatCoords;
          finalData0 = replicate n None;
          finalData1 = fold (centerStep seatCoords indParty) [0..<party_count indParty] finalData0;
          left = fold (fillStep seatCoords dppParty) (rev [0..indStartIndex n - 1]) (finalData1, 1);
          right = fold (fillStep seatCoords kmtParty)
                    [indStartIndex n + int (party_count indParty)..int n - 1] (fst left, 1)
      in fst right)"

text \<open>\<open>finalData.filter((d) => d !== null)\<close>\<close>

definition filteredData :: "partySeat option list \<Rightarrow> partySeat option list" where
  "filteredData finalData = filter (\<lambda>d. d \<noteq> None) finalData"

text \<open>
  The three parties of the view, in the order of \<open>partyData\<close>: the centre party first, then
  the party placed to its left and the party placed to its right (the display names are
  not ASCII).
\<close>

definition indParty :: partyInfo where
  "indParty = \<lparr>party_id = ''IND'', party_name = ''independent'', party_count = 2,
               party_color = ''#95A5A6''\<rparr>"

definition dppParty :: partyInfo where
  "dppParty = \<lparr>party_id = ''DPP'', party_name = ''DPP'', party_count = 38,
               party_color = ''#6BCB77''\<rparr>"

definition kmtParty :: partyInfo where
  "kmtParty = \<lparr>party_id = ''KMT'', party_name = ''KMT'', party_count = 39,
               party_color = ''#4D96FF''\<rparr>"

definition partyData :: "partyInfo list" where
  "partyData = [indParty, dppParty, kmtParty]"

text \<open>A seat for the examples: only its number matters to the assignment.\<close>

definition mkSeat :: "nat \<Rightarrow> seat" where
  "mkSeat k = \<lparr>seat_x = Fin 0, seat_y = Fin 0, seat_r = Fin 0, theta = Fin 0, row = 0, number = k\<rparr>"

definition mkParty :: "string \<Rightarrow> nat \<Rightarrow> partyInfo" where
  "mkParty p c = \<lparr>party_id = p, party_name = p, party_count = c, party_color = ''#000000''\<rparr>"

section \<open>The parliament view: candidates and seat sizes\<close>

text \<open>
  \<open>loadCandidateData\<close> after parsing: the rows are sorted by party (\<open>partyOrder\<close>) and,
  within a party, by descending vote count. A party code outside the table reads
  \<open>undefined\<close>, which makes the difference \<open>NaN\<close>.
\<close>

definition partyOrder :: "string \<Rightarrow> jsnum" where
  "partyOrder p = (if p = ''IND'' then Fin 0 else if p = ''DPP'' then Fin 1
                   else if p = ''KMT'' then Fin 2 else NaN)"

definition candidateCmp :: "candidate \<Rightarrow> candidate \<Rightarrow> jsnum" where
  "candidateCmp a b =
     (let partyDiff = partyOrder (partyId a) - partyOrder (partyId b)
      in if partyDiff \<noteq> Fin 0 then partyDiff else cand_votes b - cand_votes a)"

definition loadCandidateData :: "candidate list \<Rightarrow> candidate list" where
  "loadCandidateData rows = array_sort candidateCmp rows"

text \<open>
  The comparator of the seats of one party: outer rows first, and within a row the seat
  nearest to the top (angle \<open>pi / 2\<close>) first.
\<close>

definition seatCmp :: "partySeat \<Rightarrow> partySeat \<Rightarrow> jsnum" where
  "seatCmp a b =
     (if row a \<noteq> row b then Fin (real (row b)) - Fin (real (row a))
      else let centerAngle = Math_PI / Fin 2;
               distA = Math_abs (theta a - centerAngle);
               distB = Math_abs (theta b - centerAngle)
           in distA - distB)"

text \<open>
  The label of a seat: the candidate's name, or the placeholder made of a fixed prefix
  (not ASCII) and the seat's rank.
\<close>

datatype seatLabel = CandidateName string | Placeholder nat

text \<open>A seat once \<open>candidateName\<close>, \<open>rank\<close> and \<open>votes\<close> have been set on it.\<close>

record candSeat =
  seat_of :: partySeat
  candidateName :: seatLabel
  rank :: nat
  votes :: jsnum

text \<open>\<open>candidates.filter((c) => c.partyId === partyId)\<close>\<close>

definition partyCandidates :: "string \<Rightarrow> candidate list \<Rightarrow> candidate list" where
  "partyCandidates p candidates = filter (\<lambda>c. partyId c = p) candidates"

text \<open>
  The body of \<open>Object.keys(partyGroups).forEach\<close> for one party: its seats are sorted and
  the candidates of the party are bound to them in that order.
\<close>

definition bindCandidates :: "partySeat list \<Rightarrow> candidate list \<Rightarrow> candSeat list" where
  "bindCandidates seats cands =
     map (\<lambda>(index, s).
            if index < length cands
            then let candidate = cands ! index
                 in \<lparr>seat_of = s, candidateName = CandidateName (cand_name candidate),
                     rank = index + 1, votes = cand_votes candidate\<rparr>
            else \<lparr>seat_of = s, candidateName = Placeholder (index + 1), rank = index + 1,
                  votes = Fin 0\<rparr>)
         (enumerate 0 (array_sort seatCmp seats))"

text \<open>The order the sort is meant to produce: row descending, then distance to the top ascending.\<close>

definition seatBefore :: "partySeat \<Rightarrow> partySeat \<Rightarrow> bool" where
  "seatBefore a b =
     (row b < row a \<or>
      (row a = row b \<and>
       js_le (Math_abs (theta a - Math_PI / Fin 2)) (Math_abs (theta b - Math_PI / Fin 2))))"

text \<open>
  The radius of a seat's circle: the area is \<open>votes / areaDivisor\<close>; a seat without votes
  gets \<open>baseRadius\<close>.
\<close>

definition areaDivisor :: jsnum where
  "areaDivisor = Fin 18"

definition baseRadius :: "jsnum \<Rightarrow> jsnum" where
  "baseRadius maxRadius = Math_min (maxRadius / Fin 14) (Fin 18)"

definition seatRadius :: "jsnum \<Rightarrow> jsnum \<Rightarrow> jsnum" where
  "seatRadius v base =
     (if truthy v \<and> js_lt (Fin 0) v then Math_sqrt (v / (areaDivisor * Math_PI)) else base)"

record drawnSeat =
  bound :: candSeat
  radius :: jsnum

definition withRadius :: "jsnum \<Rightarrow> candSeat \<Rightarrow> drawnSeat" where
  "withRadius base s = \<lparr>bound = s, radius = seatRadius (votes s) base\<rparr>"

text \<open>A row as \<open>loadCandidateData\<close> makes it: a party code of the table and a finite count.\<close>

definition wellFormedRow :: "candidate \<Rightarrow> bool" where
  "wellFormedRow c = (partyId c \<in> {''IND'', ''DPP'', ''KMT''} \<and> isFinite (cand_votes c))"

text \<open>A seat of a party for the examples, with its row and angle.\<close>

definition mkPartySeat :: "nat \<Rightarrow> real \<Rightarrow> partySeat" where
  "mkPartySeat rw t = assignSeat (mkSeat 0\<lparr>row := rw, theta := Fin t\<rparr>) dppParty 1"

text \<open>A bound seat for the examples.\<close>

definition exampleSeat :: candSeat where
  "exampleSeat = \<lparr>seat_of = mkPartySeat 0 0, candidateName = Placeholder 1, rank = 1, votes = Fin 0\<rparr>"

section \<open>MapTab: Jenks natural breaks\<close>

text \<open>An exception thrown by the JavaScript engine.\<close>

datatype js_error = TypeError

text \<open>\<open>a[i][j] = v\<close> on an array of rows, for indices inside the array.\<close>

definition set2 :: "'a list list \<Rightarrow> nat \<Rightarrow> nat \<Rightarrow> 'a \<Rightarrow> 'a list list" where
  "set2 a i j v = a[i := (a ! i)[j := v]]"

text \<open>The two tables of the dynamic program.\<close>

record jenksTables =
  matrix :: "jsnum list list"
  lowerClassLimit :: "nat list list"

text \<open>
  The tables after the three initialising loops: both are \<open>(dataLength + 1)\<close> rows of
  \<open>(nClasses + 1)\<close> zeros, then \<open>matrix[0][i] = 1\<close>, \<open>lowerClassLimit[0][i] = 0\<close> and
  \<open>matrix[j][i] = Infinity\<close> for \<open>1 <= i <= nClasses\<close> and \<open>1 <= j <= dataLength\<close>.
\<close>

definition initColumn :: "nat \<Rightarrow> nat \<Rightarrow> jenksTables \<Rightarrow> jenksTables" where
  "initColumn dataLength i t =
     (let m0 = set2 (matrix t) 0 i (Fin 1);
          l0 = set2 (lowerClassLimit t) 0 i 0
      in \<lparr>matrix = fold (\<lambda>j m. set2 m j i PInf) [1..<dataLength + 1] m0, lowerClassLimit = l0\<rparr>)"

definition initTables :: "nat \<Rightarrow> nat \<Rightarrow> jenksTables" where
  "initTables dataLength nClasses =
     fold (initColumn dataLength) [1..<nClasses + 1]
       \<lparr>matrix = replicate (dataLength + 1) (replicate (nClasses + 1) (Fin 0)),
        lowerClassLimit = replicate (dataLength + 1) (replicate (nClasses + 1) 0)\<rparr>"

text \<open>The body of the loop over \<open>j\<close> from 2 to \<open>nClasses\<close>.\<close>

definition innerJ :: "nat \<Rightarrow> nat \<Rightarrow> nat \<Rightarrow> real \<Rightarrow> nat \<Rightarrow> jenksTables \<Rightarrow> jenksTables" where
  "innerJ l i4 lowerClassLimitIndex variance j t =
     (if js_le (Fin variance + matrix t ! i4 ! (j - 1)) (matrix t ! l ! j)
      then \<lparr>matrix = set2 (matrix t) l j (Fin variance + matrix t ! i4 ! (j - 1)),
            lowerClassLimit = set2 (lowerClassLimit t) l j lowerClassLimitIndex\<rparr>
      else t)"

text \<open>
  The body of the loop over \<open>m\<close> from 0 to \<open>l\<close>, on \<open>sum\<close> (here \<open>sumv\<close>), \<open>sumSquares\<close>, \<open>w\<close>, \<open>variance\<close>
  and the tables.
\<close>

definition innerM :: "real list \<Rightarrow> nat \<Rightarrow> nat \<Rightarrow> nat
    \<Rightarrow> real \<times> real \<times> nat \<times> real \<times> jenksTables \<Rightarrow> real \<times> real \<times> nat \<times> real \<times> jenksTables" where
  "innerM sortedData nClasses l m st =
     (case st of (sumv, sumSquares, w, variance, t) \<Rightarrow>
        let lowerClassLimitIndex = l - m + 1;
            val = sortedData ! (lowerClassLimitIndex - 1);
            w' = w + 1;
            sumv' = sumv + val;
            sumSquares' = sumSquares + val * val;
            variance' = sumSquares' - (sumv' * sumv') / real w';
            i4 = lowerClassLimitIndex - 1;
            t' = (if i4 \<noteq> 0
                  then fold (innerJ l i4 lowerClassLimitIndex variance') [2..<nClasses + 1] t
                  else t)
        in (sumv', sumSquares', w', variance', t'))"

text \<open>The body of the loop over \<open>l\<close> from 0 to \<open>dataLength - 1\<close>, on \<open>variance\<close> and the tables.\<close>

definition outerL :: "real list \<Rightarrow> nat \<Rightarrow> nat \<Rightarrow> real \<times> jenksTables \<Rightarrow> real \<times> jenksTables" where
  "outerL sortedData nClasses l st =
     (case fold (innerM sortedData nClasses l) [0..<l + 1] (0, 0, 0, fst st, snd st) of
        (sumv, sumSquares, w, variance, t) \<Rightarrow>
          (variance, \<lparr>matrix = set2 (matrix t) l 1 (Fin variance),
                      lowerClassLimit = set2 (lowerClassLimit t) l 1 1\<rparr>))"

text \<open>
  The last loop, for \<open>j\<close> from \<open>nClasses\<close> down to 1. \<open>classMarkers\<close> is filled from its
  last index to its first and is built here from the back. Reading \<open>lowerClassLimit[k]\<close>
  outside the table gives \<open>undefined\<close>, and indexing \<open>undefined\<close> throws; reading
  \<open>sortedData\<close> outside the array gives \<open>undefined\<close> (\<open>None\<close>).
\<close>

fun extractMarkers :: "nat list list \<Rightarrow> real list \<Rightarrow> int \<Rightarrow> nat \<Rightarrow> real option list
    \<Rightarrow> js_error + real option list" where
  "extractMarkers lcl sortedData k 0 classMarkers = Inr classMarkers"
| "extractMarkers lcl sortedData k (Suc j') classMarkers =
     (if k < 0 \<or> int (length lcl) \<le> k then Inl TypeError
      else let v = int (lcl ! nat k ! Suc j');
               ident = v - 2;
               marker = (if 0 \<le> ident + 1 \<and> ident + 1 < int (length sortedData)
                         then Some (sortedData ! nat (ident + 1)) else None)
           in extractMarkers lcl sortedData (v - 1) j' (marker # classMarkers))"

text \<open>
  \<open>jenksNaturalBreaks\<close> on an array of finite numbers. Every table access of the three
  nested loops is inside the tables when \<open>nClasses\<close> is at least 1; for \<open>nClasses = 0\<close> the
  source extends a row, which the result (the empty array) does not depend on.
\<close>

definition jenksNaturalBreaks :: "real list \<Rightarrow> nat \<Rightarrow> js_error + real option list" where
  "jenksNaturalBreaks data nClasses0 =
     (if length data = 0 then Inr []
      else
        let sortedData = array_sort (\<lambda>a b. Fin (a - b)) data;
            dataLength = length sortedData;
            nClasses = (if nClasses0 > dataLength then dataLength else nClasses0);
            st = fold (outerL sortedData nClasses) [0..<dataLength]
                   (0, initTables dataLength nClasses)
        in extractMarkers (lowerClassLimit (snd st)) sortedData (int dataLength) nClasses [])"

text \<open>The last row of \<open>lowerClassLimit\<close> is never written.\<close>

definition lastRowUntouched :: "nat \<Rightarrow> nat \<Rightarrow> jenksTables \<Rightarrow> bool" where
  "lastRowUntouched n k t =
     (length (lowerClassLimit t) = n + 1 \<and> lowerClassLimit t ! n = replicate (k + 1) 0)"

section \<open>Facts about the sort\<close>

lemma mset_insort_by: "mset (insort_by cmp x xs) = add_mset x (mset xs)"
  by (induction xs) auto

lemma mset_array_sort: "mset (array_sort cmp xs) = mset xs"
  by (induction xs) (auto simp: mset_insort_by)

lemma set_insort_by: "set (insort_by cmp x xs) = insert x (set xs)"
  by (induction xs) auto

lemma set_array_sort: "set (array_sort cmp xs) = set xs"
  by (induction xs) (auto simp: set_insort_by)

lemma length_insort_by: "length (insort_by cmp x xs) = Suc (length xs)"
  by (induction xs) auto

lemma length_array_sort: "length (array_sort cmp xs) = length xs"
  by (induction xs) (auto simp: length_insort_by)

lemma consistent_on_total:
  "consistent_on A cmp \<Longrightarrow> a \<in> A \<Longrightarrow> b \<in> A \<Longrightarrow> before cmp a b \<or> before cmp b a"
  unfolding consistent_on_def by blast

lemma consistent_on_trans:
  "consistent_on A cmp \<Longrightarrow> a \<in> A \<Longrightarrow> b \<in> A \<Longrightarrow> c \<in> A \<Longrightarrow>
   before cmp a b \<Longrightarrow> before cmp b c \<Longrightarrow> before cmp a c"
  unfolding consistent_on_def by blast

lemma consistent_on_subset: "consistent_on A cmp \<Longrightarrow> B \<subseteq> A \<Longrightarrow> consistent_on B cmp"
  unfolding consistent_on_def by blast

lemma sorted_insort_by:
  assumes "consistent_on (insert x (set xs)) cmp" and "sorted_wrt (before cmp) xs"
  shows "sorted_wrt (before cmp) (insort_by cmp x xs)"
  using assms
proof (induction xs)
  case Nil
  then show ?case by simp
next
  case (Cons y ys)
  let ?A = "insert x (set (y # ys))"
  have sub: "consistent_on (insert x (set ys)) cmp"
    by (rule consistent_on_subset [OF Cons.prems(1)]) auto
  have ys: "sorted_wrt (before cmp) ys" and yz: "\<And>z. z \<in> set ys \<Longrightarrow> before cmp y z"
    using Cons.prems(2) by simp_all
  show ?case
  proof (cases "before cmp x y")
    case True
    have "before cmp x z" if "z \<in> set ys" for z
    proof (rule consistent_on_trans [OF Cons.prems(1) _ _ _ True])
      show "x \<in> ?A" "y \<in> ?A" "z \<in> ?A" using that by simp_all
      show "before cmp y z" using that by (rule yz)
    qed
    with True ys yz show ?thesis by simp
  next
    case False
    have "before cmp x y \<or> before cmp y x"
      by (rule consistent_on_total [OF Cons.prems(1)]) simp_all
    with False have yx: "before cmp y x" by simp
    have "sorted_wrt (before cmp) (insort_by cmp x ys)"
      using sub ys by (rule Cons.IH)
    moreover have "\<And>z. z \<in> set (insort_by cmp x ys) \<Longrightarrow> before cmp y z"
      using yx yz by (auto simp: set_insort_by)
    ultimately show ?thesis using False by simp
  qed
qed

lemma sorted_array_sort:
  "consistent_on (set xs) cmp \<Longrightarrow> sorted_wrt (before cmp) (array_sort cmp xs)"
proof (induction xs)
  case Nil
  then show ?case by simp
next
  case (Cons x xs)
  have "consistent_on (set xs) cmp"
    by (rule consistent_on_subset [OF Cons.prems]) auto
  then have "sorted_wrt (before cmp) (array_sort cmp xs)" by (rule Cons.IH)
  moreover have "consistent_on (insert x (set (array_sort cmp xs))) cmp"
    using Cons.prems by (simp add: set_array_sort)
  ultimately show ?case by (simp add: sorted_insort_by)
qed

section \<open>The median of the bar chart\<close>

lemma js_or_not_NaN: "js_or v (Fin 0) \<noteq> NaN"
  by (simp add: js_or_def truthy_def)

lemma before_minus:
  "a \<noteq> NaN \<Longrightarrow> b \<noteq> NaN \<Longrightarrow> before (\<lambda>a b. a - b) a b = js_le a b"
  by (cases a; cases b) (simp_all add: before_def minus_jsnum_def)

lemma js_le_total: "a \<noteq> NaN \<Longrightarrow> b \<noteq> NaN \<Longrightarrow> js_le a b \<or> js_le b a"
  by (cases a; cases b) auto

lemma js_le_trans: "js_le a b \<Longrightarrow> js_le b c \<Longrightarrow> js_le a c"
  by (cases a; cases b; cases c) auto

lemma consistent_minus:
  assumes "NaN \<notin> A"
  shows "consistent_on A (\<lambda>a b. a - b)"
  unfolding consistent_on_def
proof (intro conjI ballI impI)
  fix a b assume "a \<in> A" "b \<in> A"
  with assms have "a \<noteq> NaN" "b \<noteq> NaN" by auto
  then show "before (\<lambda>a b. a - b) a b \<or> before (\<lambda>a b. a - b) b a"
    using js_le_total [of a b] by (simp add: before_minus)
next
  fix a b c assume "a \<in> A" "b \<in> A" "c \<in> A"
    and ab: "before (\<lambda>a b. a - b) a b" and bc: "before (\<lambda>a b. a - b) b c"
  with assms have n: "a \<noteq> NaN" "b \<noteq> NaN" "c \<noteq> NaN" by auto
  from ab bc n have "js_le a b" "js_le b c" by (simp_all add: before_minus)
  then have "js_le a c" by (rule js_le_trans)
  with n show "before (\<lambda>a b. a - b) a c" by (simp add: before_minus)
qed

lemma NaN_notin_sideVotes: "NaN \<notin> set (sideVotes cs)"
proof
  assume "NaN \<in> set (sideVotes cs)"
  then obtain d :: candidate where "NaN = js_or (cand_votes d) (Fin 0)"
    unfolding sideVotes_def by auto
  then show False using js_or_not_NaN [of "cand_votes d"] by simp
qed

lemma sorted_sortedVotes: "sorted_wrt js_le (sortedVotes cs)"
proof -
  let ?s = "sortedVotes cs"
  have srt: "sorted_wrt (before (\<lambda>a b. a - b)) ?s"
    unfolding sortedVotes_def
    by (rule sorted_array_sort) (rule consistent_minus [OF NaN_notin_sideVotes])
  have nn: "NaN \<notin> set ?s"
    by (simp add: sortedVotes_def set_array_sort NaN_notin_sideVotes)
  show ?thesis
  proof (rule sorted_wrt_mono_rel [OF _ srt])
    fix x y assume "x \<in> set ?s" "y \<in> set ?s" "before (\<lambda>a b. a - b) x y"
    moreover from this nn have "x \<noteq> NaN" "y \<noteq> NaN" by auto
    ultimately show "js_le x y" by (simp add: before_minus)
  qed
qed

lemma length_sortedVotes: "length (sortedVotes cs) = length cs"
  by (simp add: sortedVotes_def length_array_sort sideVotes_def)

lemma medianVotes_unfold:
  "medianVotes cs =
     (if length cs = 0 then Fin 0
      else if odd (length cs) then sortedVotes cs ! (length cs div 2)
      else (sortedVotes cs ! (length cs div 2 - 1) + sortedVotes cs ! (length cs div 2)) / Fin 2)"
proof -
  have len: "length (sortedVotes cs) = length cs" by (rule length_sortedVotes)
  have par: "(length cs mod 2 = 0) = even (length cs)" by (simp add: even_iff_mod_2_eq_zero)
  show ?thesis
    unfolding medianVotes_def Let_def len par
    by (cases "length cs = 0"; cases "even (length cs)") simp_all
qed

lemma medianVotes_example_even:
  "medianVotes [mkCandidate ''KMT'' (Fin 5), mkCandidate ''KMT'' (Fin 1),
                mkCandidate ''IND'' NaN, mkCandidate ''KMT'' (Fin 2)] = Fin (3 / 2)"
  by (simp add: medianVotes_def sortedVotes_def sideVotes_def mkCandidate_def js_or_def
      truthy_def before_def minus_jsnum_def)

lemma medianVotes_example_odd:
  "medianVotes [mkCandidate ''DPP'' (Fin 5), mkCandidate ''DPP'' (Fin 1),
                mkCandidate ''DPP'' (Fin 3)] = Fin 3"
  by (simp add: medianVotes_def sortedVotes_def sideVotes_def mkCandidate_def js_or_def
      truthy_def before_def minus_jsnum_def)

lemma js_or_zero: "js_or v (Fin 0) = (if v = NaN then Fin 0 else v)"
  by (simp add: js_or_def truthy_def)

lemma sideVotes_cand_votes:
  "sideVotes cs = map (\<lambda>d. if cand_votes d = NaN then Fin 0 else cand_votes d) cs"
  by (simp add: sideVotes_def js_or_zero)

text \<open>
  Claim C10. The median shown by the bar chart is computed from the vote counts of the
  group's candidates, a count that is not a number taken as 0: the counts are sorted
  ascending (the sorted list is a rearrangement of these counts, in non-decreasing order),
  and the median is 0 for an empty group, the middle element of the sorted list for a group
  of odd size, and the arithmetic mean of its two middle elements for a non-empty group of
  even size. So the median of the counts 5, 1, 3 is 3, and the median of 5, 1, a missing
  count and 2 is 3/2.
\<close>

theorem medianVotes_formula:
  "sideVotes cs = map (\<lambda>d. if cand_votes d = NaN then Fin 0 else cand_votes d) cs \<and>
   mset (sortedVotes cs)
     = mset (map (\<lambda>d. if cand_votes d = NaN then Fin 0 else cand_votes d) cs) \<and>
   sorted_wrt js_le (sortedVotes cs) \<and>
   medianVotes cs =
     (if length cs = 0 then Fin 0
      else if odd (length cs) then sortedVotes cs ! (length cs div 2)
      else (sortedVotes cs ! (length cs div 2 - 1) + sortedVotes cs ! (length cs div 2)) / Fin 2) \<and>
   medianVotes [] = Fin 0 \<and>
   medianVotes [mkCandidate ''DPP'' (Fin 5), mkCandidate ''DPP'' (Fin 1),
                mkCandidate ''DPP'' (Fin 3)] = Fin 3 \<and>
   medianVotes [mkCandidate ''KMT'' (Fin 5), mkCandidate ''KMT'' (Fin 1),
                mkCandidate ''IND'' NaN, mkCandidate ''KMT'' (Fin 2)] = Fin (3 / 2)"
proof (intro conjI)
  show "sideVotes cs = map (\<lambda>d. if cand_votes d = NaN then Fin 0 else cand_votes d) cs"
    by (rule sideVotes_cand_votes)
  show "mset (sortedVotes cs)
     = mset (map (\<lambda>d. if cand_votes d = NaN then Fin 0 else cand_votes d) cs)"
    unfolding sortedVotes_def mset_array_sort sideVotes_cand_votes ..
  show "sorted_wrt js_le (sortedVotes cs)" by (rule sorted_sortedVotes)
  show "medianVotes cs =
     (if length cs = 0 then Fin 0
      else if odd (length cs) then sortedVotes cs ! (length cs div 2)
      else (sortedVotes cs ! (length cs div 2 - 1) + sortedVotes cs ! (length cs div 2)) / Fin 2)"
    by (rule medianVotes_unfold)
  show "medianVotes [] = Fin 0"
    by (simp add: medianVotes_def sortedVotes_def sideVotes_def)
  show "medianVotes [mkCandidate ''DPP'' (Fin 5), mkCandidate ''DPP'' (Fin 1),
                mkCandidate ''DPP'' (Fin 3)] = Fin 3"
    by (rule medianVotes_example_odd)
  show "medianVotes [mkCandidate ''KMT'' (Fin 5), mkCandidate ''KMT'' (Fin 1),
                mkCandidate ''IND'' NaN, mkCandidate ''KMT'' (Fin 2)] = Fin (3 / 2)"
    by (rule medianVotes_example_even)
qed

section \<open>The grid layout\<close>

lemma d3_min_fold:
  "fold (\<lambda>value m. case value of
                        None \<Rightarrow> m
                      | Some v \<Rightarrow> (case m of
                                     None \<Rightarrow> if js_le v v then Some v else m
                                   | Some mv \<Rightarrow> if js_lt v mv then Some v else m))
          (map (\<lambda>a. Some (Fin a)) xs) (Some (Fin b)) = Some (Fin (fold min xs b))"
  by (induction xs arbitrary: b) (auto simp: min_def)

lemma d3_max_fold:
  "fold (\<lambda>value m. case value of
                        None \<Rightarrow> m
                      | Some v \<Rightarrow> (case m of
                                     None \<Rightarrow> if js_le v v then Some v else m
                                   | Some mv \<Rightarrow> if js_lt mv v then Some v else m))
          (map (\<lambda>a. Some (Fin a)) xs) (Some (Fin b)) = Some (Fin (fold max xs b))"
  by (induction xs arbitrary: b) (auto simp: max_def)

lemma d3_min_finite:
  "xs \<noteq> [] \<Longrightarrow> d3_min (map (\<lambda>a. Some (Fin a)) xs) = Some (Fin (Min (set xs)))"
proof (cases xs)
  case Nil
  assume "xs \<noteq> []" with Nil show ?thesis by simp
next
  case (Cons a as)
  then show ?thesis
    unfolding d3_min_def using Min.set_eq_fold [of a as] by (simp add: d3_min_fold)
qed

lemma d3_max_finite:
  "xs \<noteq> [] \<Longrightarrow> d3_max (map (\<lambda>a. Some (Fin a)) xs) = Some (Fin (Max (set xs)))"
proof (cases xs)
  case Nil
  assume "xs \<noteq> []" with Nil show ?thesis by simp
next
  case (Cons a as)
  then show ?thesis
    unfolding d3_max_def using Max.set_eq_fold [of a as] by (simp add: d3_max_fold)
qed

lemma gridRange_finite:
  assumes "xs \<noteq> []"
  shows "gridRange (map (\<lambda>a. Some (Fin a)) xs) = Fin (Max (set xs) - Min (set xs) + 1)"
proof -
  define lo hi where "lo = Min (set xs)" and "hi = Max (set xs)"
  have "lo \<le> hi" unfolding lo_def hi_def using assms by simp
  then have "Math_max (Fin hi - Fin lo + Fin 1) (Fin 1) = Fin (hi - lo + 1)"
    by (simp add: minus_jsnum_def Math_max_def)
  then show ?thesis
    unfolding gridRange_def d3_min_finite [OF assms] d3_max_finite [OF assms] toNumber_def
      lo_def hi_def
    by simp
qed

lemma gridsWithXY_cells: "gridsWithXY (map cellFeature cells) = map cellFeature cells"
  by (induction cells) (simp_all add: gridsWithXY_def cellFeature_def isFiniteProp_def)

lemma map_grid_x_cells: "map grid_x (map cellFeature cells) = map (\<lambda>a. Some (Fin a)) (map fst cells)"
  by (simp add: cellFeature_def)

lemma map_grid_y_cells: "map grid_y (map cellFeature cells) = map (\<lambda>a. Some (Fin a)) (map snd cells)"
  by (simp add: cellFeature_def)

lemma gridRange_cases:
  "gridRange vs = NaN \<or> gridRange vs = PInf \<or> (\<exists>r. gridRange vs = Fin r \<and> 1 \<le> r)"
proof -
  define x where "x = toNumber (d3_max vs) - toNumber (d3_min vs) + Fin 1"
  have "Math_max x (Fin 1) = NaN \<or> Math_max x (Fin 1) = PInf \<or>
        (\<exists>r. Math_max x (Fin 1) = Fin r \<and> 1 \<le> r)"
    by (cases x) (simp_all add: Math_max_def)
  then show ?thesis unfolding gridRange_def x_def .
qed

lemma available_cases:
  "isFinite s \<Longrightarrow> \<exists>a. Math_max (s - padding * Fin 2) (Fin 0) = Fin a \<and> 0 \<le> a"
  by (cases s) (simp_all add: Math_max_def padding_def minus_jsnum_def)

lemma available_small:
  "w \<le> 80 \<Longrightarrow> Math_max (Fin w - padding * Fin 2) (Fin 0) = Fin 0"
  by (simp add: Math_max_def padding_def minus_jsnum_def)

lemma available_large:
  "80 < w \<Longrightarrow> Math_max (Fin w - padding * Fin 2) (Fin 0) = Fin (w - 2 * 40)"
  by (simp add: Math_max_def padding_def minus_jsnum_def)

lemma zero_quotient:
  assumes "rx = NaN \<or> rx = PInf \<or> (\<exists>r. rx = Fin r \<and> 1 \<le> r)"
  shows "Fin 0 / rx = NaN \<or> Fin 0 / rx = Fin 0"
  using assms by (cases rx) auto

lemma quotient_cases:
  assumes "rx = NaN \<or> rx = PInf \<or> (\<exists>r. rx = Fin r \<and> 1 \<le> r)" and "0 \<le> a"
  shows "Fin a / rx = NaN \<or> (\<exists>q. Fin a / rx = Fin q \<and> 0 \<le> q)"
  using assms by (cases rx) auto

lemma min_zero_fails:
  assumes "p = NaN \<or> p = Fin 0" and "q = NaN \<or> (\<exists>r. q = Fin r \<and> 0 \<le> r)"
  shows "\<not> isFinite (Math_min p q) \<or> js_le (Math_min p q) (Fin 0)"
  using assms by (auto simp: Math_min_def)

lemma min_zero_fails2:
  assumes "q = NaN \<or> q = Fin 0" and "p = NaN \<or> (\<exists>r. p = Fin r \<and> 0 \<le> r)"
  shows "\<not> isFinite (Math_min p q) \<or> js_le (Math_min p q) (Fin 0)"
  using assms by (auto simp: Math_min_def)

lemma gridCellSize_small:
  assumes "w \<le> 80 \<or> h \<le> 80"
  shows "\<not> isFinite (gridCellSize grids (Fin w) (Fin h)) \<or>
         js_le (gridCellSize grids (Fin w) (Fin h)) (Fin 0)"
proof -
  let ?rx = "gridRange (map grid_x grids)" and ?ry = "gridRange (map grid_y grids)"
  obtain a where a: "Math_max (Fin w - padding * Fin 2) (Fin 0) = Fin a" "0 \<le> a"
    using available_cases [of "Fin w"] by auto
  obtain b where b: "Math_max (Fin h - padding * Fin 2) (Fin 0) = Fin b" "0 \<le> b"
    using available_cases [of "Fin h"] by auto
  have qa: "Fin a / ?rx = NaN \<or> (\<exists>q. Fin a / ?rx = Fin q \<and> 0 \<le> q)"
    by (rule quotient_cases [OF gridRange_cases a(2)])
  have qb: "Fin b / ?ry = NaN \<or> (\<exists>q. Fin b / ?ry = Fin q \<and> 0 \<le> q)"
    by (rule quotient_cases [OF gridRange_cases b(2)])
  from assms show ?thesis
  proof
    assume "w \<le> 80"
    then have "a = 0" using a(1) by (simp add: available_small)
    then have "Fin a / ?rx = NaN \<or> Fin a / ?rx = Fin 0"
      using zero_quotient [OF gridRange_cases] by simp
    then show ?thesis
      unfolding gridCellSize_def Let_def a(1) b(1) using qb by (rule min_zero_fails)
  next
    assume "h \<le> 80"
    then have "b = 0" using b(1) by (simp add: available_small)
    then have "Fin b / ?ry = NaN \<or> Fin b / ?ry = Fin 0"
      using zero_quotient [OF gridRange_cases] by simp
    then show ?thesis
      unfolding gridCellSize_def Let_def a(1) b(1) using qa by (rule min_zero_fails2)
  qed
qed

lemma drawHexGridOnly_None_iff:
  "drawHexGridOnly features svgWidth svgHeight = None \<longleftrightarrow>
     gridsWithXY features = [] \<or> \<not> isFinite svgWidth \<or> \<not> isFinite svgHeight \<or>
     svgWidth = Fin 0 \<or> svgHeight = Fin 0 \<or>
     \<not> isFinite (gridCellSize (gridsWithXY features) svgWidth svgHeight) \<or>
     js_le (gridCellSize (gridsWithXY features) svgWidth svgHeight) (Fin 0)"
  unfolding drawHexGridOnly_def Let_def by (simp only: length_0_conv split: if_split) blast

lemma drawHexGridOnly_Some:
  assumes "drawHexGridOnly features svgWidth svgHeight = Some cfg"
  shows "cellSize cfg = gridCellSize (gridsWithXY features) svgWidth svgHeight \<and>
         offsetX cfg = (svgWidth - cellSize cfg * gridRange (map grid_x (gridsWithXY features))) / Fin 2 \<and>
         offsetY cfg = (svgHeight - cellSize cfg * gridRange (map grid_y (gridsWithXY features))) / Fin 2 \<and>
         minX cfg = d3_min (map grid_x (gridsWithXY features)) \<and>
         maxX cfg = d3_max (map grid_x (gridsWithXY features)) \<and>
         minY cfg = d3_min (map grid_y (gridsWithXY features)) \<and>
         maxY cfg = d3_max (map grid_y (gridsWithXY features))"
  using assms unfolding drawHexGridOnly_def Let_def
  by (auto split: if_splits)

lemma positive_min_finite_ranges:
  assumes "Math_min (Fin a / rx) (Fin b / ry) = Fin c" and "0 < c"
    and "rx = NaN \<or> rx = PInf \<or> (\<exists>r. rx = Fin r \<and> 1 \<le> r)"
    and "ry = NaN \<or> ry = PInf \<or> (\<exists>r. ry = Fin r \<and> 1 \<le> r)"
  shows "isFinite rx \<and> isFinite ry"
  using assms by (cases rx; cases ry) (auto simp: Math_min_def split: if_splits)

lemma drawHexGridOnly_finite:
  assumes "drawHexGridOnly features svgWidth svgHeight = Some cfg"
  shows "\<exists>c ox oy. cellSize cfg = Fin c \<and> 0 < c \<and> offsetX cfg = Fin ox \<and> offsetY cfg = Fin oy"
proof -
  let ?g = "gridsWithXY features"
  let ?rx = "gridRange (map grid_x ?g)" and ?ry = "gridRange (map grid_y ?g)"
  have nn: "drawHexGridOnly features svgWidth svgHeight \<noteq> None" using assms by simp
  then obtain w h where wh: "svgWidth = Fin w" "svgHeight = Fin h"
    unfolding drawHexGridOnly_None_iff by (cases svgWidth; cases svgHeight) auto
  from nn have "isFinite (gridCellSize ?g svgWidth svgHeight)"
    and pos: "\<not> js_le (gridCellSize ?g svgWidth svgHeight) (Fin 0)"
    unfolding drawHexGridOnly_None_iff by auto
  then obtain c where c: "gridCellSize ?g svgWidth svgHeight = Fin c"
    by (cases "gridCellSize ?g svgWidth svgHeight") auto
  with pos have cpos: "0 < c" by simp
  obtain a where a: "Math_max (Fin w - padding * Fin 2) (Fin 0) = Fin a"
    using available_cases [of "Fin w"] by auto
  obtain b where b: "Math_max (Fin h - padding * Fin 2) (Fin 0) = Fin b"
    using available_cases [of "Fin h"] by auto
  have "Math_min (Fin a / ?rx) (Fin b / ?ry) = Fin c"
    using c unfolding gridCellSize_def Let_def wh a b .
  then have "isFinite ?rx \<and> isFinite ?ry"
    using cpos gridRange_cases gridRange_cases by (rule positive_min_finite_ranges)
  then obtain rx ry where r: "?rx = Fin rx" "?ry = Fin ry"
    by (cases ?rx; cases ?ry) auto
  have cs: "cellSize cfg = Fin c" using drawHexGridOnly_Some [OF assms] c by simp
  have "offsetX cfg = Fin ((w - c * rx) / 2)"
    using drawHexGridOnly_Some [OF assms] unfolding cs r wh by (simp add: minus_jsnum_def)
  moreover have "offsetY cfg = Fin ((h - c * ry) / 2)"
    using drawHexGridOnly_Some [OF assms] unfolding cs r wh by (simp add: minus_jsnum_def)
  ultimately show ?thesis using cs cpos by blast
qed

text \<open>
  Claim C8. The grid layout produces no configuration when no feature carries finite grid
  coordinates (in particular for an empty feature list), when the viewport is not finite
  or has a zero side, or leaves no room inside the padding, and whenever the computed cell
  size is not finite or not positive. A configuration that is produced has a finite,
  positive cell size and finite offsets.
\<close>

theorem drawHexGridOnly_fails:
  "(gridsWithXY features = [] \<longrightarrow> drawHexGridOnly features svgWidth svgHeight = None) \<and>
   (\<not> isFinite (gridCellSize (gridsWithXY features) svgWidth svgHeight) \<or>
    js_le (gridCellSize (gridsWithXY features) svgWidth svgHeight) (Fin 0)
      \<longrightarrow> drawHexGridOnly features svgWidth svgHeight = None) \<and>
   (\<not> isFinite svgWidth \<or> \<not> isFinite svgHeight \<or> svgWidth = Fin 0 \<or> svgHeight = Fin 0
      \<longrightarrow> drawHexGridOnly features svgWidth svgHeight = None) \<and>
   (\<forall>w h. w \<le> 80 \<or> h \<le> 80 \<longrightarrow> drawHexGridOnly features (Fin w) (Fin h) = None) \<and>
   (\<forall>cfg. drawHexGridOnly features svgWidth svgHeight = Some cfg \<longrightarrow>
      (\<exists>c ox oy. cellSize cfg = Fin c \<and> 0 < c \<and> offsetX cfg = Fin ox \<and> offsetY cfg = Fin oy))"
proof (intro conjI allI impI)
  assume "gridsWithXY features = []"
  then show "drawHexGridOnly features svgWidth svgHeight = None"
    unfolding drawHexGridOnly_None_iff by blast
next
  assume "\<not> isFinite (gridCellSize (gridsWithXY features) svgWidth svgHeight) \<or>
          js_le (gridCellSize (gridsWithXY features) svgWidth svgHeight) (Fin 0)"
  then show "drawHexGridOnly features svgWidth svgHeight = None"
    unfolding drawHexGridOnly_None_iff by blast
next
  assume "\<not> isFinite svgWidth \<or> \<not> isFinite svgHeight \<or> svgWidth = Fin 0 \<or> svgHeight = Fin 0"
  then show "drawHexGridOnly features svgWidth svgHeight = None"
    unfolding drawHexGridOnly_None_iff by blast
next
  fix w h :: real assume "w \<le> 80 \<or> h \<le> 80"
  then show "drawHexGridOnly features (Fin w) (Fin h) = None"
    unfolding drawHexGridOnly_None_iff using gridCellSize_small by blast
next
  fix cfg assume "drawHexGridOnly features svgWidth svgHeight = Some cfg"
  then show "\<exists>c ox oy. cellSize cfg = Fin c \<and> 0 < c \<and> offsetX cfg = Fin ox \<and> offsetY cfg = Fin oy"
    by (rule drawHexGridOnly_finite)
qed

lemma gridCellSize_cells:
  assumes "cells \<noteq> []" and "80 < w" and "80 < h"
  shows "gridCellSize (map cellFeature cells) (Fin w) (Fin h) =
         Fin (min ((w - 2 * 40) / (Max (fst ` set cells) - Min (fst ` set cells) + 1))
                  ((h - 2 * 40) / (Max (snd ` set cells) - Min (snd ` set cells) + 1)))"
proof -
  define rx where "rx = Max (fst ` set cells) - Min (fst ` set cells) + 1"
  define ry where "ry = Max (snd ` set cells) - Min (snd ` set cells) + 1"
  have fx: "map fst cells \<noteq> []" and fy: "map snd cells \<noteq> []" using assms(1) by simp_all
  have "Min (fst ` set cells) \<le> Max (fst ` set cells)" using assms(1) by simp
  then have rx1: "1 \<le> rx" unfolding rx_def by simp
  have "Min (snd ` set cells) \<le> Max (snd ` set cells)" using assms(1) by simp
  then have ry1: "1 \<le> ry" unfolding ry_def by simp
  have gx: "gridRange (map grid_x (map cellFeature cells)) = Fin rx"
    unfolding map_grid_x_cells gridRange_finite [OF fx] rx_def by simp
  have gy: "gridRange (map grid_y (map cellFeature cells)) = Fin ry"
    unfolding map_grid_y_cells gridRange_finite [OF fy] ry_def by simp
  have "Math_min (Fin (w - 2 * 40) / Fin rx) (Fin (h - 2 * 40) / Fin ry) =
        Fin (min ((w - 2 * 40) / rx) ((h - 2 * 40) / ry))"
    using rx1 ry1 by (auto simp: Math_min_def min_def)
  then show ?thesis
    unfolding gridCellSize_def Let_def gx gy available_large [OF assms(2)]
      available_large [OF assms(3)] rx_def ry_def .
qed

lemma drawHexGridOnly_cells:
  assumes "cells \<noteq> []" and "80 < w" and "80 < h"
  shows "\<exists>cfg. drawHexGridOnly (map cellFeature cells) (Fin w) (Fin h) = Some cfg \<and>
     (let rangeX = Max (fst ` set cells) - Min (fst ` set cells) + 1;
          rangeY = Max (snd ` set cells) - Min (snd ` set cells) + 1;
          c = min ((w - 2 * 40) / rangeX) ((h - 2 * 40) / rangeY)
      in cellSize cfg = Fin c \<and>
         offsetX cfg = Fin ((w - c * rangeX) / 2) \<and>
         offsetY cfg = Fin ((h - c * rangeY) / 2) \<and>
         0 < c \<and> c * rangeX \<le> w - 2 * 40 \<and> c * rangeY \<le> h - 2 * 40)"
proof -
  define rx where "rx = Max (fst ` set cells) - Min (fst ` set cells) + 1"
  define ry where "ry = Max (snd ` set cells) - Min (snd ` set cells) + 1"
  define c where "c = min ((w - 2 * 40) / rx) ((h - 2 * 40) / ry)"
  let ?fs = "map cellFeature cells"
  have fx: "map fst cells \<noteq> []" and fy: "map snd cells \<noteq> []" using assms(1) by simp_all
  have "Min (fst ` set cells) \<le> Max (fst ` set cells)" using assms(1) by simp
  then have rx1: "1 \<le> rx" unfolding rx_def by simp
  have "Min (snd ` set cells) \<le> Max (snd ` set cells)" using assms(1) by simp
  then have ry1: "1 \<le> ry" unfolding ry_def by simp
  have gx: "gridRange (map grid_x ?fs) = Fin rx"
    unfolding map_grid_x_cells gridRange_finite [OF fx] rx_def by simp
  have gy: "gridRange (map grid_y ?fs) = Fin ry"
    unfolding map_grid_y_cells gridRange_finite [OF fy] ry_def by simp
  have cs: "gridCellSize ?fs (Fin w) (Fin h) = Fin c"
    unfolding c_def rx_def ry_def by (rule gridCellSize_cells [OF assms])
  have "0 < (w - 2 * 40) / rx" "0 < (h - 2 * 40) / ry"
    using assms(2,3) rx1 ry1 by simp_all
  then have cpos: "0 < c" unfolding c_def by simp
  have "c \<le> (w - 2 * 40) / rx" unfolding c_def by simp
  then have fitx: "c * rx \<le> w - 2 * 40" using rx1 by (simp add: pos_le_divide_eq)
  have "c \<le> (h - 2 * 40) / ry" unfolding c_def by simp
  then have fity: "c * ry \<le> h - 2 * 40" using ry1 by (simp add: pos_le_divide_eq)
  have nonempty: "gridsWithXY ?fs \<noteq> []"
    unfolding gridsWithXY_cells using assms(1) by simp
  have "drawHexGridOnly ?fs (Fin w) (Fin h) \<noteq> None"
    unfolding drawHexGridOnly_None_iff gridsWithXY_cells cs
    using nonempty assms(2,3) cpos by (simp add: gridsWithXY_cells)
  then obtain cfg where cfg: "drawHexGridOnly ?fs (Fin w) (Fin h) = Some cfg" by auto
  have c1: "cellSize cfg = Fin c"
    using drawHexGridOnly_Some [OF cfg] cs by (simp add: gridsWithXY_cells)
  have ox: "offsetX cfg = Fin ((w - c * rx) / 2)"
    using drawHexGridOnly_Some [OF cfg] unfolding c1 gridsWithXY_cells gx
    by (simp add: minus_jsnum_def)
  have oy: "offsetY cfg = Fin ((h - c * ry) / 2)"
    using drawHexGridOnly_Some [OF cfg] unfolding c1 gridsWithXY_cells gy
    by (simp add: minus_jsnum_def)
  show ?thesis
    unfolding Let_def using cfg c1 ox oy cpos fitx fity
    unfolding c_def rx_def ry_def by blast
qed

lemma Min_Max_four:
  "Min (fst ` set [(0::real, 0::real), (1, 0), (0, 1), (1, 1)]) = 0"
  "Max (fst ` set [(0::real, 0::real), (1, 0), (0, 1), (1, 1)]) = 1"
  "Min (snd ` set [(0::real, 0::real), (1, 0), (0, 1), (1, 1)]) = 0"
  "Max (snd ` set [(0::real, 0::real), (1, 0), (0, 1), (1, 1)]) = 1"
  by simp_all

lemma drawHexGridOnly_four:
  "\<exists>cfg. drawHexGridOnly (map cellFeature [(0, 0), (1, 0), (0, 1), (1, 1)]) (Fin 500) (Fin 500)
            = Some cfg \<and> cellSize cfg = Fin 210 \<and> offsetX cfg = Fin 40 \<and> offsetY cfg = Fin 40"
  using drawHexGridOnly_cells [of "[(0, 0), (1, 0), (0, 1), (1, 1)]" 500 500]
  unfolding Let_def Min_Max_four by simp

text \<open>
  Claim C3. For a non-empty set of cells and a viewport larger than the padding on both
  axes, the layout has cell size \<open>min (availableWidth / rangeX) (availableHeight / rangeY)\<close>
  with \<open>rangeX = maxX - minX + 1\<close>, \<open>rangeY = maxY - minY + 1\<close> and the available size the
  viewport less the padding of 40 on both sides; the offsets leave equal margins around the
  occupied bounding box, which fits inside the padding. For the four cells of the unit
  square in a viewport of 500 by 500, twice the cell size is at most 420 and the two
  offsets are equal.
\<close>

theorem drawHexGridOnly_layout:
  "(cells \<noteq> [] \<longrightarrow> 80 < w \<longrightarrow> 80 < h \<longrightarrow>
     (\<exists>cfg. drawHexGridOnly (map cellFeature cells) (Fin w) (Fin h) = Some cfg \<and>
       (let rangeX = Max (fst ` set cells) - Min (fst ` set cells) + 1;
            rangeY = Max (snd ` set cells) - Min (snd ` set cells) + 1;
            c = min ((w - 2 * 40) / rangeX) ((h - 2 * 40) / rangeY)
        in cellSize cfg = Fin c \<and>
           offsetX cfg = Fin ((w - c * rangeX) / 2) \<and>
           offsetY cfg = Fin ((h - c * rangeY) / 2) \<and>
           0 < c \<and> c * rangeX \<le> w - 2 * 40 \<and> c * rangeY \<le> h - 2 * 40))) \<and>
   (\<exists>cfg c. drawHexGridOnly (map cellFeature [(0, 0), (1, 0), (0, 1), (1, 1)]) (Fin 500) (Fin 500)
              = Some cfg \<and> cellSize cfg = Fin c \<and> 2 * c \<le> 420 \<and> offsetX cfg = offsetY cfg)"
proof (intro conjI impI)
  assume "cells \<noteq> []" "80 < w" "80 < h"
  then show "\<exists>cfg. drawHexGridOnly (map cellFeature cells) (Fin w) (Fin h) = Some cfg \<and>
       (let rangeX = Max (fst ` set cells) - Min (fst ` set cells) + 1;
            rangeY = Max (snd ` set cells) - Min (snd ` set cells) + 1;
            c = min ((w - 2 * 40) / rangeX) ((h - 2 * 40) / rangeY)
        in cellSize cfg = Fin c \<and>
           offsetX cfg = Fin ((w - c * rangeX) / 2) \<and>
           offsetY cfg = Fin ((h - c * rangeY) / 2) \<and>
           0 < c \<and> c * rangeX \<le> w - 2 * 40 \<and> c * rangeY \<le> h - 2 * 40)"
    by (rule drawHexGridOnly_cells)
next
  from drawHexGridOnly_four obtain cfg where
    "drawHexGridOnly (map cellFeature [(0, 0), (1, 0), (0, 1), (1, 1)]) (Fin 500) (Fin 500) = Some cfg"
    "cellSize cfg = Fin 210" "offsetX cfg = Fin 40" "offsetY cfg = Fin 40" by blast
  then show "\<exists>cfg c. drawHexGridOnly (map cellFeature [(0, 0), (1, 0), (0, 1), (1, 1)]) (Fin 500) (Fin 500)
              = Some cfg \<and> cellSize cfg = Fin c \<and> 2 * c \<le> 420 \<and> offsetX cfg = offsetY cfg"
    by (intro exI [of _ cfg] exI [of _ 210]) simp
qed

theorem drawHexGridOnly_layout_witness:
  "[(0, 0), (3, 0), (1, 2)] \<noteq> [] \<and> (80::real) < 500 \<and> (80::real) < 400 \<and>
   (\<exists>cfg. drawHexGridOnly (map cellFeature [(0, 0), (3, 0), (1, 2)]) (Fin 500) (Fin 400) = Some cfg \<and>
      cellSize cfg = Fin 105 \<and> offsetX cfg = Fin 40 \<and> offsetY cfg = Fin (85 / 2))"
proof -
  have m: "Min (fst ` set [(0::real, 0::real), (3, 0), (1, 2)]) = 0"
    "Max (fst ` set [(0::real, 0::real), (3, 0), (1, 2)]) = 3"
    "Min (snd ` set [(0::real, 0::real), (3, 0), (1, 2)]) = 0"
    "Max (snd ` set [(0::real, 0::real), (3, 0), (1, 2)]) = 2"
    by simp_all
  show ?thesis
    using drawHexGridOnly_layout [of "[(0, 0), (3, 0), (1, 2)]" 500 400]
    unfolding Let_def m by simp
qed

theorem drawHexGridOnly_fails_witness:
  "drawHexGridOnly [] (Fin 500) (Fin 500) = None \<and>
   drawHexGridOnly [cellFeature (0, 0)] (Fin 0) (Fin 0) = None \<and>
   drawHexGridOnly [cellFeature (0, 0)] (Fin 500) NaN = None \<and>
   drawHexGridOnly [cellFeature (0, 0)] (Fin 60) (Fin 500) = None"
  using drawHexGridOnly_fails [of "[]" "Fin 500" "Fin 500"]
    drawHexGridOnly_fails [of "[cellFeature (0, 0)]" "Fin 0" "Fin 0"]
    drawHexGridOnly_fails [of "[cellFeature (0, 0)]" "Fin 500" NaN]
    drawHexGridOnly_fails [of "[cellFeature (0, 0)]" "Fin 60" "Fin 500"]
  by (simp add: gridsWithXY_def)

section \<open>Seat positions\<close>

lemma upt_5: "[0..<5] = [0, 1, 2, 3, 4]"
  by (simp add: eval_nat_numeral)

lemma rowRadii_equal5: "rowRadii 5 (Fin 100) (Fin 100) = [Fin 100, Fin 100, Fin 100, Fin 100, Fin 100]"
  by (simp add: rowRadii_def upt_5 minus_jsnum_def)

lemma rowCounts_equal5:
  "rowCounts 3 5 [Fin 100, Fin 100, Fin 100, Fin 100, Fin 100] = [Fin 1, Fin 1, Fin 1, Fin 1, Fin (- 1)]"
proof -
  have s: "d3_sum [Fin (pi * 100), Fin (pi * 100), Fin (pi * 100), Fin (pi * 100), Fin (pi * 100)]
           = Fin (pi * 500)"
    by (simp add: d3_sum_def truthy_def)
  have q: "Math_round (Fin 3 * (Fin (pi * 100) / Fin (pi * 500))) = Fin 1"
    by simp
  show ?thesis
    unfolding rowCounts_def Let_def Math_PI_def
    apply (simp only: list.map times_jsnum.simps s of_int_numeral)
    apply (simp only: rowCountsFrom.simps Let_def q)
    apply (simp add: minus_jsnum_def)
    done
qed

lemma length_rowSeats: "length (rowSeats r rowIndex cnt k) = k"
  by (simp add: rowSeats_def Let_def)

lemma length_numberSeats: "length (numberSeats seats) = length seats"
  by (simp add: numberSeats_def)

lemma nth_numberSeats:
  assumes "i < length seats"
  shows "number (numberSeats seats ! i) = i + 1"
    and "seat_x (numberSeats seats ! i) = seat_x (seats ! i)"
    and "seat_y (numberSeats seats ! i) = seat_y (seats ! i)"
    and "seat_r (numberSeats seats ! i) = seat_r (seats ! i)"
    and "theta (numberSeats seats ! i) = theta (seats ! i)"
    and "row (numberSeats seats ! i) = row (seats ! i)"
  using assms by (simp_all add: numberSeats_def nth_enumerate_eq)

lemma map_number_numberSeats: "map number (numberSeats seats) = [1..<Suc (length seats)]"
  by (rule nth_equalityI) (simp_all add: length_numberSeats nth_numberSeats del: upt_Suc)

lemma map_fields_numberSeats:
  "map seat_x (numberSeats seats) = map seat_x seats"
  "map seat_y (numberSeats seats) = map seat_y seats"
  "map seat_r (numberSeats seats) = map seat_r seats"
  "map theta (numberSeats seats) = map theta seats"
  "map row (numberSeats seats) = map row seats"
  by (rule nth_equalityI; simp add: length_numberSeats nth_numberSeats)+

lemma generateParliamentSeats_Some:
  assumes "allRowSeats (rowRadii rowCount innerRadius outerRadius)
             (rowCounts totalSeats rowCount (rowRadii rowCount innerRadius outerRadius)) 0 = Some cs"
  shows "generateParliamentSeats totalSeats rowCount innerRadius outerRadius =
           Some (numberSeats (array_sort (\<lambda>a b. theta b - theta a) cs))"
  using assms by (simp add: generateParliamentSeats_def Let_def)

text \<open>
  Claim C1. The seats returned are as many as \<open>totalSeats\<close> only when the rounded shares of
  the inner rows do not exceed it. For 3 seats in 5 rows of equal radius each of the four
  inner rows rounds its share of 0.6 up to one seat, the last row is left with \<open>-1\<close> and
  places no seat, and the function returns 4 seats, numbered 1 to 4.
\<close>

theorem generateParliamentSeats_overallocates:
  "\<exists>seats. generateParliamentSeats 3 5 (Fin 100) (Fin 100) = Some seats \<and>
     length seats = 4 \<and> map number seats = [1, 2, 3, 4] \<and>
     rowCounts 3 5 (rowRadii 5 (Fin 100) (Fin 100)) = [Fin 1, Fin 1, Fin 1, Fin 1, Fin (- 1)]"
proof -
  define cs where "cs = rowSeats (Fin 100) 0 (Fin 1) 1 @ rowSeats (Fin 100) 1 (Fin 1) 1 @
             rowSeats (Fin 100) 2 (Fin 1) 1 @ rowSeats (Fin 100) 3 (Fin 1) 1 @
             rowSeats (Fin 100) 4 (Fin (- 1)) 0"
  define sorted where "sorted = array_sort (\<lambda>a b. theta b - theta a) cs"
  have "allRowSeats (rowRadii 5 (Fin 100) (Fin 100))
          (rowCounts 3 5 (rowRadii 5 (Fin 100) (Fin 100))) 0 = Some cs"
    unfolding rowRadii_equal5 rowCounts_equal5 cs_def by (simp add: eval_nat_numeral)
  then have g: "generateParliamentSeats 3 5 (Fin 100) (Fin 100) = Some (numberSeats sorted)"
    unfolding sorted_def by (rule generateParliamentSeats_Some)
  have len: "length sorted = 4"
    unfolding sorted_def cs_def by (simp add: length_array_sort length_rowSeats)
  have upt: "[1..<Suc 4] = [1, 2, 3, 4]"
    by (simp add: eval_nat_numeral)
  have "length (numberSeats sorted) = 4"
    by (simp only: length_numberSeats len)
  moreover have "map number (numberSeats sorted) = [1, 2, 3, 4]"
    by (simp only: map_number_numberSeats len upt)
  ultimately show ?thesis
    using g rowRadii_equal5 rowCounts_equal5 by simp
qed

lemma div_zero_special: "x / Fin 0 = NaN \<or> x / Fin 0 = PInf \<or> x / Fin 0 = NInf"
  by (cases x) simp_all

lemma zero_times_special: "s = NaN \<or> s = PInf \<or> s = NInf \<Longrightarrow> Fin 0 * s = NaN"
  by auto

lemma plus_NaN: "a + NaN = NaN"
  by (cases a) simp_all

lemma times_NaN: "NaN * a = NaN"
  by (cases a) simp_all

lemma rowRadii_one: "rowRadii 1 innerRadius outerRadius = [NaN]"
proof -
  have "Fin 0 * ((outerRadius - innerRadius) / Fin 0) = NaN"
    by (rule zero_times_special) (rule div_zero_special)
  then show ?thesis by (simp add: rowRadii_def plus_NaN)
qed

lemma rowCounts_one: "rowCounts totalSeats 1 [NaN] = [Fin (of_int totalSeats)]"
  by (simp add: rowCounts_def Math_PI_def d3_sum_def truthy_def minus_jsnum_def)

lemma map_fields_rowSeats:
  "map seat_r (rowSeats r rowIndex cnt k) = replicate k r"
  "map seat_x (rowSeats NaN rowIndex cnt k) = replicate k NaN"
  "map seat_y (rowSeats NaN rowIndex cnt k) = replicate k NaN"
  by (simp_all add: rowSeats_def Let_def times_NaN map_replicate_const comp_def)

lemma replicate_of_mset:
  assumes "mset xs = mset (replicate k a)"
  shows "xs = replicate k a"
proof -
  have "set xs \<subseteq> {a}" using assms by (metis mset_eq_setD set_replicate_conv_if empty_subsetI subset_refl)
  moreover have "length xs = k" using assms by (metis mset_eq_length length_replicate)
  ultimately show ?thesis by (metis replicate_eqI subset_singletonD singletonD empty_iff subsetD)
qed

lemma map_array_sort_const:
  assumes "map f xs = replicate k a"
  shows "map f (array_sort cmp xs) = replicate k a"
proof (rule replicate_of_mset)
  have "mset (map f (array_sort cmp xs)) = mset (map f xs)"
    by (simp add: mset_array_sort)
  then show "mset (map f (array_sort cmp xs)) = mset (replicate k a)"
    using assms by simp
qed

lemma generateParliamentSeats_one_row:
  "\<exists>seats. generateParliamentSeats totalSeats 1 innerRadius outerRadius = Some seats \<and>
     length seats = nat totalSeats \<and>
     map seat_r seats = replicate (nat totalSeats) NaN \<and>
     map seat_x seats = replicate (nat totalSeats) NaN \<and>
     map seat_y seats = replicate (nat totalSeats) NaN"
proof -
  define k where "k = nat totalSeats"
  define cs where "cs = rowSeats NaN 0 (Fin (of_int totalSeats)) k"
  define sorted where "sorted = array_sort (\<lambda>a b. theta b - theta a) cs"
  have "allRowSeats (rowRadii 1 innerRadius outerRadius)
          (rowCounts totalSeats 1 (rowRadii 1 innerRadius outerRadius)) 0 = Some cs"
    unfolding rowRadii_one rowCounts_one cs_def k_def by simp
  then have g: "generateParliamentSeats totalSeats 1 innerRadius outerRadius
                  = Some (numberSeats sorted)"
    unfolding sorted_def by (rule generateParliamentSeats_Some)
  have "length (numberSeats sorted) = k"
    unfolding sorted_def cs_def by (simp add: length_numberSeats length_array_sort length_rowSeats)
  moreover have "map seat_r (numberSeats sorted) = replicate k NaN"
    unfolding sorted_def cs_def map_fields_numberSeats
    by (rule map_array_sort_const) (rule map_fields_rowSeats)
  moreover have "map seat_x (numberSeats sorted) = replicate k NaN"
    unfolding sorted_def cs_def map_fields_numberSeats
    by (rule map_array_sort_const) (rule map_fields_rowSeats)
  moreover have "map seat_y (numberSeats sorted) = replicate k NaN"
    unfolding sorted_def cs_def map_fields_numberSeats
    by (rule map_array_sort_const) (rule map_fields_rowSeats)
  ultimately show ?thesis using g unfolding k_def by simp
qed

text \<open>
  Claim C9. With one row the radius is not \<open>innerRadius\<close>: the step divides by
  \<open>rowCount - 1 = 0\<close>, which gives an infinity or \<open>NaN\<close>, and \<open>0 * step\<close> is \<open>NaN\<close>. For
  3 seats in one row with radii 60 and 260 the three seats have radius \<open>NaN\<close> and the
  coordinates \<open>NaN\<close>.
\<close>

theorem generateParliamentSeats_one_row_NaN:
  "\<exists>seats. generateParliamentSeats 3 1 (Fin 60) (Fin 260) = Some seats \<and>
     length seats = 3 \<and>
     map seat_r seats = [NaN, NaN, NaN] \<and>
     map seat_x seats = [NaN, NaN, NaN] \<and>
     map seat_y seats = [NaN, NaN, NaN]"
proof -
  have "replicate (nat 3) NaN = [NaN, NaN, NaN]"
    by (simp add: eval_nat_numeral)
  then show ?thesis
    using generateParliamentSeats_one_row [of 3 "Fin 60" "Fin 260"] by simp
qed

section \<open>Party assignment\<close>

lemma length_centerStep: "length (centerStep sc p i fd) = length fd"
  by (simp add: centerStep_def Let_def)

lemma length_fold_centerStep: "length (fold (centerStep sc p) is fd) = length fd"
  by (induction "is" arbitrary: fd) (simp_all add: length_centerStep)

lemma fillStep_length: "length (fst (fillStep sc p i st)) = length (fst st)"
  by (cases st) (simp add: fillStep_def)

lemma fold_fillStep_length: "length (fst (fold (fillStep sc p) is st)) = length (fst st)"
  by (induction "is" arbitrary: st) (simp_all add: fillStep_length)

lemma length_assignParties: "length (assignParties sc ind dpp kmt) = length sc"
  by (simp add: assignParties_def Let_def fold_fillStep_length length_fold_centerStep)

lemma center_loop_nth:
  assumes "length fd = length sc" and "\<forall>i<length sc. fd ! i = None" and "i < length sc"
  shows "fold (centerStep sc p) [0..<k] fd ! i =
           (if indStartIndex (length sc) \<le> int i \<and> int i < indStartIndex (length sc) + int k
            then Some (assignSeat (sc ! i) p (nat (int i - indStartIndex (length sc)) + 1))
            else None)"
proof (induction k)
  case 0
  then show ?case using assms by simp
next
  case (Suc k)
  let ?s = "indStartIndex (length sc)"
  let ?F = "fold (centerStep sc p) [0..<k] fd"
  have len: "length ?F = length sc" using assms(1) by (simp add: length_fold_centerStep)
  have step: "fold (centerStep sc p) [0..<Suc k] fd = centerStep sc p k ?F" by simp
  show ?case
  proof (cases "0 \<le> ?s + int k \<and> ?s + int k < int (length sc)")
    case True
    then have upd: "centerStep sc p k ?F
        = ?F[nat (?s + int k) := Some (assignSeat (sc ! nat (?s + int k)) p (k + 1))]"
      by (simp add: centerStep_def Let_def)
    show ?thesis
    proof (cases "i = nat (?s + int k)")
      case eq: True
      then have "int i = ?s + int k" using True by simp
      then show ?thesis
        unfolding step upd using assms(3) len eq by simp
    next
      case neq: False
      then have "int i \<noteq> ?s + int k" using True by auto
      then show ?thesis
        unfolding step upd using neq Suc.IH by auto
    qed
  next
    case False
    then have same: "centerStep sc p k ?F = ?F"
      unfolding centerStep_def Let_def by (simp only: if_False)
    from False assms(3) have "int i \<noteq> ?s + int k" by auto
    then show ?thesis unfolding step same using Suc.IH by auto
  qed
qed

lemma fill_all:
  assumes "distinct is"
    and "\<forall>i\<in>set is. 0 \<le> i \<and> i < int (length fd) \<and> fd ! nat i = None"
    and "num + length is \<le> party_count p + 1"
  shows "snd (fold (fillStep sc p) is (fd, num)) = num + length is \<and>
         (\<forall>j<length is. fst (fold (fillStep sc p) is (fd, num)) ! nat (is ! j)
                           = Some (assignSeat (sc ! nat (is ! j)) p (num + j))) \<and>
         (\<forall>i<length fd. int i \<notin> set is \<longrightarrow>
              fst (fold (fillStep sc p) is (fd, num)) ! i = fd ! i)"
  using assms
proof (induction "is" arbitrary: fd num)
  case Nil
  then show ?case by simp
next
  case (Cons a rest)
  let ?v = "Some (assignSeat (sc ! nat a) p num)"
  let ?fd = "fd[nat a := ?v]"
  let ?R = "fold (fillStep sc p) rest (?fd, num + 1)"
  have a: "0 \<le> a" "a < int (length fd)" "fd ! nat a = None"
    using Cons.prems(2) by simp_all
  have num: "num \<le> party_count p" using Cons.prems(3) by simp
  have step: "fillStep sc p a (fd, num) = (?fd, num + 1)"
    using a num by (simp add: fillStep_def)
  have fold_eq: "fold (fillStep sc p) (a # rest) (fd, num) = ?R"
    by (simp add: step)
  have d: "distinct rest" and anr: "a \<notin> set rest" using Cons.prems(1) by simp_all
  have pre: "\<forall>i\<in>set rest. 0 \<le> i \<and> i < int (length ?fd) \<and> ?fd ! nat i = None"
  proof
    fix i assume i: "i \<in> set rest"
    then have "0 \<le> i" "i < int (length fd)" "fd ! nat i = None"
      using Cons.prems(2) by simp_all
    moreover have "nat i \<noteq> nat a"
    proof
      assume "nat i = nat a"
      then have "i = a" using a(1) \<open>0 \<le> i\<close> by linarith
      with i anr show False by simp
    qed
    ultimately show "0 \<le> i \<and> i < int (length ?fd) \<and> ?fd ! nat i = None" by simp
  qed
  have cnt: "(num + 1) + length rest \<le> party_count p + 1" using Cons.prems(3) by simp
  note IH = Cons.IH [OF d pre cnt]
  have nat_a: "nat a < length fd" using a by simp
  show ?case
  proof (intro conjI allI impI)
    show "snd (fold (fillStep sc p) (a # rest) (fd, num)) = num + length (a # rest)"
      unfolding fold_eq using IH by simp
  next
    fix j assume j: "j < length (a # rest)"
    show "fst (fold (fillStep sc p) (a # rest) (fd, num)) ! nat ((a # rest) ! j)
            = Some (assignSeat (sc ! nat ((a # rest) ! j)) p (num + j))"
    proof (cases j)
      case 0
      have "int (nat a) \<notin> set rest" using anr a(1) by simp
      then have "fst ?R ! nat a = ?fd ! nat a" using IH nat_a by simp
      then show ?thesis unfolding fold_eq using 0 nat_a by simp
    next
      case (Suc j')
      then have "j' < length rest" using j by simp
      then have "fst ?R ! nat (rest ! j') = Some (assignSeat (sc ! nat (rest ! j')) p (num + 1 + j'))"
        using IH by blast
      then show ?thesis unfolding fold_eq using Suc by simp
    qed
  next
    fix i assume i: "i < length fd" "int i \<notin> set (a # rest)"
    then have "int i \<notin> set rest" and "i \<noteq> nat a" using a(1) by auto
    then have "fst ?R ! i = ?fd ! i" using IH i(1) by simp
    then show "fst (fold (fillStep sc p) (a # rest) (fd, num)) ! i = fd ! i"
      unfolding fold_eq using \<open>i \<noteq> nat a\<close> by simp
  qed
qed

text \<open>The number of assigned entries of the array.\<close>

lemma length_filter_update_le:
  "length (filter P (xs[i := v])) \<le> Suc (length (filter P xs))"
proof -
  have "{j. j < length xs \<and> P (xs[i := v] ! j)} \<subseteq> insert i {j. j < length xs \<and> P (xs ! j)}"
    by (auto simp: nth_list_update split: if_splits)
  then have "card {j. j < length xs \<and> P (xs[i := v] ! j)}
               \<le> card (insert i {j. j < length xs \<and> P (xs ! j)})"
    by (intro card_mono) simp_all
  also have "\<dots> \<le> Suc (card {j. j < length xs \<and> P (xs ! j)})"
    by (simp add: card_insert_if)
  finally show ?thesis by (simp add: length_filter_conv_card)
qed

lemma filteredData_centerStep:
  "length (filteredData (centerStep sc p i fd)) \<le> Suc (length (filteredData fd))"
  unfolding filteredData_def centerStep_def Let_def
  by (simp add: length_filter_update_le)

lemma filteredData_center_loop:
  "length (filteredData (fold (centerStep sc p) [0..<k] fd)) \<le> length (filteredData fd) + k"
proof (induction k)
  case 0
  then show ?case by simp
next
  case (Suc k)
  have "length (filteredData (fold (centerStep sc p) [0..<Suc k] fd))
          \<le> Suc (length (filteredData (fold (centerStep sc p) [0..<k] fd)))"
    by (simp add: filteredData_centerStep)
  with Suc show ?case by simp
qed

lemma filteredData_fillStep:
  assumes "fillStep sc p i (fd, num) = (fd', num')"
  shows "length (filteredData fd') + (party_count p + 1 - num')
           \<le> length (filteredData fd) + (party_count p + 1 - num)"
proof (cases "0 \<le> i \<and> i < int (length fd) \<and> fd ! nat i = None \<and> num \<le> party_count p")
  case True
  then have "fd' = fd[nat i := Some (assignSeat (sc ! nat i) p num)]" and "num' = num + 1"
    using assms by (simp_all add: fillStep_def)
  moreover have "length (filteredData (fd[nat i := Some (assignSeat (sc ! nat i) p num)]))
                   \<le> Suc (length (filteredData fd))"
    unfolding filteredData_def by (rule length_filter_update_le)
  ultimately show ?thesis using True by simp
next
  case False
  then have "fd' = fd" and "num' = num"
    using assms unfolding fillStep_def by (simp_all only: prod.case if_False prod.inject)
  then show ?thesis by simp
qed

lemma filteredData_fill_loop:
  "length (filteredData (fst (fold (fillStep sc p) is (fd, num))))
       + (party_count p + 1 - snd (fold (fillStep sc p) is (fd, num)))
     \<le> length (filteredData fd) + (party_count p + 1 - num)"
proof (induction "is" arbitrary: fd num)
  case Nil
  then show ?case by simp
next
  case (Cons a rest)
  obtain fd' num' where st: "fillStep sc p a (fd, num) = (fd', num')" by (cases "fillStep sc p a (fd, num)")
  have "length (filteredData (fst (fold (fillStep sc p) rest (fd', num'))))
       + (party_count p + 1 - snd (fold (fillStep sc p) rest (fd', num')))
     \<le> length (filteredData fd') + (party_count p + 1 - num')"
    by (rule Cons.IH)
  also have "\<dots> \<le> length (filteredData fd) + (party_count p + 1 - num)"
    by (rule filteredData_fillStep [OF st])
  finally show ?case by (simp add: st)
qed

lemma filteredData_fill_loop_from_1:
  "length (filteredData (fst (fold (fillStep sc p) is (fd, 1))))
     \<le> length (filteredData fd) + party_count p"
  using filteredData_fill_loop [of sc p "is" fd 1] by simp

lemma filteredData_replicate: "filteredData (replicate n None) = []"
  by (simp add: filteredData_def)

lemma filteredData_assignParties_le:
  "length (filteredData (assignParties sc ind dpp kmt))
     \<le> party_count ind + party_count dpp + party_count kmt"
proof -
  let ?n = "length sc"
  let ?fd1 = "fold (centerStep sc ind) [0..<party_count ind] (replicate ?n None)"
  let ?left = "fold (fillStep sc dpp) (rev [0..indStartIndex ?n - 1]) (?fd1, 1)"
  let ?right = "fold (fillStep sc kmt) [indStartIndex ?n + int (party_count ind)..int ?n - 1] (fst ?left, 1)"
  have "length (filteredData (fst ?right)) \<le> length (filteredData (fst ?left)) + party_count kmt"
    by (rule filteredData_fill_loop_from_1)
  also have "length (filteredData (fst ?left)) \<le> length (filteredData ?fd1) + party_count dpp"
    by (rule filteredData_fill_loop_from_1)
  also have "length (filteredData ?fd1) \<le> length (filteredData (replicate ?n None)) + party_count ind"
    by (rule filteredData_center_loop)
  finally show ?thesis
    by (simp add: assignParties_def Let_def filteredData_replicate)
qed

lemma assignParties_partition_aux:
  fixes sc :: "seat list"
  defines "n \<equiv> length sc"
  assumes sum: "party_count ind + party_count dpp + party_count kmt = n"
    and left: "int (party_count dpp) \<le> indStartIndex n"
    and right: "indStartIndex n + int (party_count ind) + int (party_count kmt) \<le> int n"
    and i: "i < n"
  shows "assignParties sc ind dpp kmt ! i =
           Some (if i < party_count dpp
                 then assignSeat (sc ! i) dpp (party_count dpp - i)
                 else if i < party_count dpp + party_count ind
                 then assignSeat (sc ! i) ind (i - party_count dpp + 1)
                 else assignSeat (sc ! i) kmt (i - party_count dpp - party_count ind + 1))"
proof -
  define c0 c1 c2 where "c0 = party_count ind" and "c1 = party_count dpp" and "c2 = party_count kmt"
  have s: "indStartIndex n = int c1"
    using sum left right unfolding c1_def by linarith
  define fd1 where "fd1 = fold (centerStep sc ind) [0..<c0] (replicate n None)"
  define L where "L = rev [0..int c1 - 1]"
  define fd2 where "fd2 = fst (fold (fillStep sc dpp) L (fd1, 1))"
  define R where "R = [int c1 + int c0..int n - 1]"
  define fd3 where "fd3 = fst (fold (fillStep sc kmt) R (fd2, 1))"
  have res: "assignParties sc ind dpp kmt = fd3"
    unfolding assignParties_def Let_def fd3_def fd2_def fd1_def L_def R_def
    by (simp add: s n_def [symmetric] c0_def c1_def)
  have len1: "length fd1 = n" unfolding fd1_def by (simp add: length_fold_centerStep)
  have len2: "length fd2 = n" unfolding fd2_def by (simp add: fold_fillStep_length len1)
  have fd1: "fd1 ! k = (if c1 \<le> k \<and> k < c1 + c0
                         then Some (assignSeat (sc ! k) ind (k - c1 + 1)) else None)"
    if "k < n" for k
  proof -
    have "fd1 ! k = (if indStartIndex (length sc) \<le> int k \<and> int k < indStartIndex (length sc) + int c0
            then Some (assignSeat (sc ! k) ind (nat (int k - indStartIndex (length sc)) + 1))
            else None)"
      unfolding fd1_def n_def using that
      by (intro center_loop_nth) (simp_all add: n_def)
    moreover have "nat (int k - int c1) = k - c1" by simp
    ultimately show ?thesis using s unfolding n_def by (simp add: nat_diff_distrib')
  qed
  have lenL: "length L = c1" unfolding L_def by simp
  have setL: "set L = {0..int c1 - 1}" unfolding L_def by simp
  have nthL: "L ! j = int c1 - 1 - int j" if "j < c1" for j
  proof -
    have "L ! j = [0..int c1 - 1] ! (c1 - Suc j)"
      unfolding L_def using that by (simp add: rev_nth)
    also have "\<dots> = 0 + int (c1 - Suc j)"
      using that by (intro nth_upto) simp
    finally show ?thesis using that by simp
  qed
  have c1n: "c1 \<le> n" using sum unfolding c1_def by simp
  have Lpre: "\<forall>k\<in>set L. 0 \<le> k \<and> k < int (length fd1) \<and> fd1 ! nat k = None"
  proof
    fix k assume "k \<in> set L"
    then have k: "0 \<le> k" "k < int c1" unfolding setL by simp_all
    then have "nat k < n" "nat k < c1" using c1n by simp_all
    then show "0 \<le> k \<and> k < int (length fd1) \<and> fd1 ! nat k = None"
      using k fd1 [of "nat k"] len1 by simp
  qed
  have Lfill: "(\<forall>j<length L. fd2 ! nat (L ! j) = Some (assignSeat (sc ! nat (L ! j)) dpp (1 + j))) \<and>
         (\<forall>k<length fd1. int k \<notin> set L \<longrightarrow> fd2 ! k = fd1 ! k)"
    unfolding fd2_def
    using fill_all [of L fd1 1 dpp sc] Lpre lenL unfolding c1_def L_def by simp
  have fd2: "fd2 ! k = (if k < c1 then Some (assignSeat (sc ! k) dpp (c1 - k)) else fd1 ! k)"
    if "k < n" for k
  proof (cases "k < c1")
    case True
    define j where "j = c1 - 1 - k"
    have j: "j < c1" and "L ! j = int k" using True nthL [of j] unfolding j_def by simp_all
    then have "fd2 ! nat (int k) = Some (assignSeat (sc ! nat (int k)) dpp (1 + j))"
      using Lfill lenL by metis
    moreover have "1 + j = c1 - k" using True unfolding j_def by simp
    ultimately show ?thesis using True by simp
  next
    case False
    then have "int k \<notin> set L" unfolding setL by simp
    then show ?thesis using Lfill that len1 False by simp
  qed
  have lenR: "length R = c2"
    unfolding R_def using sum unfolding c0_def c1_def c2_def n_def by simp
  have setR: "set R = {int c1 + int c0..int n - 1}" unfolding R_def by simp
  have nthR: "R ! j = int c1 + int c0 + int j" if "j < c2" for j
    unfolding R_def using that sum unfolding c0_def c1_def c2_def n_def
    by (intro nth_upto) simp
  have Rpre: "\<forall>k\<in>set R. 0 \<le> k \<and> k < int (length fd2) \<and> fd2 ! nat k = None"
  proof
    fix k assume "k \<in> set R"
    then have k: "int c1 + int c0 \<le> k" "k < int n" unfolding setR by simp_all
    then have "nat k < n" "\<not> nat k < c1" "\<not> nat k < c1 + c0" by linarith+
    then show "0 \<le> k \<and> k < int (length fd2) \<and> fd2 ! nat k = None"
      using k fd2 [of "nat k"] fd1 [of "nat k"] len2 by simp
  qed
  have Rfill: "(\<forall>j<length R. fd3 ! nat (R ! j) = Some (assignSeat (sc ! nat (R ! j)) kmt (1 + j))) \<and>
         (\<forall>k<length fd2. int k \<notin> set R \<longrightarrow> fd3 ! k = fd2 ! k)"
    unfolding fd3_def
    using fill_all [of R fd2 1 kmt sc] Rpre lenR unfolding c2_def R_def by simp
  have fd3: "fd3 ! k = (if c1 + c0 \<le> k then Some (assignSeat (sc ! k) kmt (k - c1 - c0 + 1)) else fd2 ! k)"
    if "k < n" for k
  proof (cases "c1 + c0 \<le> k")
    case True
    define j where "j = k - c1 - c0"
    have "j < c2" using True that sum unfolding j_def c0_def c1_def c2_def by simp
    then have j: "j < length R" and "R ! j = int k"
      using True nthR [of j] lenR unfolding j_def by simp_all
    then have "fd3 ! nat (int k) = Some (assignSeat (sc ! nat (int k)) kmt (1 + j))"
      using Rfill by metis
    moreover have "1 + j = k - c1 - c0 + 1" unfolding j_def by simp
    ultimately show ?thesis using True by simp
  next
    case False
    then have "int k \<notin> set R" unfolding setR by simp
    then show ?thesis using Rfill that len2 False by simp
  qed
  show ?thesis
    unfolding res using fd3 [OF i] fd2 [OF i] fd1 [OF i] i
    unfolding c0_def c1_def by auto
qed

lemma filteredData_no_None: "None \<notin> set (filteredData fd)"
  by (simp add: filteredData_def)

lemma filteredData_le_length: "length (filteredData fd) \<le> length fd"
  by (simp add: filteredData_def)

lemma filteredData_all_Some:
  assumes "\<forall>i<length fd. fd ! i \<noteq> None"
  shows "filteredData fd = fd"
  unfolding filteredData_def
proof (rule filter_True)
  show "\<forall>d\<in>set fd. d \<noteq> None" using assms by (auto simp: in_set_conv_nth)
qed

text \<open>
  Claim C2. When the seat counts of the three parties sum to the number of seats and no
  block runs off the array (the second party's seats fit to the left of the start index,
  the first and third party's seats fit from the start index to the end), every seat index
  holds exactly one assignment, which keeps the seat's position and number and records the
  party's id, name and colour and the seat's number within the party: the second party
  occupies the indices below its count, numbered from the centre outwards, the first party
  the block after it, the third party the rest, each numbered from 1 to its count. No seat
  is left unassigned and the filter drops nothing.
\<close>

theorem assignParties_partition:
  assumes "party_count ind + party_count dpp + party_count kmt = length sc"
    and "int (party_count dpp) \<le> indStartIndex (length sc)"
    and "indStartIndex (length sc) + int (party_count ind) + int (party_count kmt) \<le> int (length sc)"
  shows "length (assignParties sc ind dpp kmt) = length sc \<and>
         (\<forall>i<length sc. \<exists>d. assignParties sc ind dpp kmt ! i = Some d \<and>
            seat_x d = seat_x (sc ! i) \<and> seat_y d = seat_y (sc ! i) \<and>
            seat_r d = seat_r (sc ! i) \<and> theta d = theta (sc ! i) \<and>
            row d = row (sc ! i) \<and> number d = number (sc ! i) \<and>
            (if i < party_count dpp
             then party d = party_id dpp \<and> partyName d = party_name dpp \<and>
                  color d = party_color dpp \<and> partySeatNumber d = party_count dpp - i
             else if i < party_count dpp + party_count ind
             then party d = party_id ind \<and> partyName d = party_name ind \<and>
                  color d = party_color ind \<and> partySeatNumber d = i - party_count dpp + 1
             else party d = party_id kmt \<and> partyName d = party_name kmt \<and>
                  color d = party_color kmt \<and>
                  partySeatNumber d = i - party_count dpp - party_count ind + 1)) \<and>
         (\<forall>i<length sc. assignParties sc ind dpp kmt ! i =
            Some (if i < party_count dpp
                  then assignSeat (sc ! i) dpp (party_count dpp - i)
                  else if i < party_count dpp + party_count ind
                  then assignSeat (sc ! i) ind (i - party_count dpp + 1)
                  else assignSeat (sc ! i) kmt (i - party_count dpp - party_count ind + 1))) \<and>
         filteredData (assignParties sc ind dpp kmt) = assignParties sc ind dpp kmt"
proof -
  have nth: "\<forall>i<length sc. assignParties sc ind dpp kmt ! i =
            Some (if i < party_count dpp
                  then assignSeat (sc ! i) dpp (party_count dpp - i)
                  else if i < party_count dpp + party_count ind
                  then assignSeat (sc ! i) ind (i - party_count dpp + 1)
                  else assignSeat (sc ! i) kmt (i - party_count dpp - party_count ind + 1))"
    using assignParties_partition_aux [OF assms] by blast
  have fields: "\<forall>i<length sc. \<exists>d. assignParties sc ind dpp kmt ! i = Some d \<and>
            seat_x d = seat_x (sc ! i) \<and> seat_y d = seat_y (sc ! i) \<and>
            seat_r d = seat_r (sc ! i) \<and> theta d = theta (sc ! i) \<and>
            row d = row (sc ! i) \<and> number d = number (sc ! i) \<and>
            (if i < party_count dpp
             then party d = party_id dpp \<and> partyName d = party_name dpp \<and>
                  color d = party_color dpp \<and> partySeatNumber d = party_count dpp - i
             else if i < party_count dpp + party_count ind
             then party d = party_id ind \<and> partyName d = party_name ind \<and>
                  color d = party_color ind \<and> partySeatNumber d = i - party_count dpp + 1
             else party d = party_id kmt \<and> partyName d = party_name kmt \<and>
                  color d = party_color kmt \<and>
                  partySeatNumber d = i - party_count dpp - party_count ind + 1)"
  proof (intro allI impI)
    fix i assume "i < length sc"
    with nth have e: "assignParties sc ind dpp kmt ! i =
            Some (if i < party_count dpp
                  then assignSeat (sc ! i) dpp (party_count dpp - i)
                  else if i < party_count dpp + party_count ind
                  then assignSeat (sc ! i) ind (i - party_count dpp + 1)
                  else assignSeat (sc ! i) kmt (i - party_count dpp - party_count ind + 1))"
      by blast
    show "\<exists>d. assignParties sc ind dpp kmt ! i = Some d \<and>
            seat_x d = seat_x (sc ! i) \<and> seat_y d = seat_y (sc ! i) \<and>
            seat_r d = seat_r (sc ! i) \<and> theta d = theta (sc ! i) \<and>
            row d = row (sc ! i) \<and> number d = number (sc ! i) \<and>
            (if i < party_count dpp
             then party d = party_id dpp \<and> partyName d = party_name dpp \<and>
                  color d = party_color dpp \<and> partySeatNumber d = party_count dpp - i
             else if i < party_count dpp + party_count ind
             then party d = party_id ind \<and> partyName d = party_name ind \<and>
                  color d = party_color ind \<and> partySeatNumber d = i - party_count dpp + 1
             else party d = party_id kmt \<and> partyName d = party_name kmt \<and>
                  color d = party_color kmt \<and>
                  partySeatNumber d = i - party_count dpp - party_count ind + 1)"
      unfolding e by (simp add: assignSeat_def)
  qed
  from nth have "\<forall>i<length (assignParties sc ind dpp kmt). assignParties sc ind dpp kmt ! i \<noteq> None"
    by (simp add: length_assignParties)
  then have "filteredData (assignParties sc ind dpp kmt) = assignParties sc ind dpp kmt"
    by (rule filteredData_all_Some)
  with nth fields show ?thesis by (simp only: length_assignParties simp_thms)
qed

theorem assignParties_partition_witness:
  "party_count indParty + party_count dppParty + party_count kmtParty = length (map mkSeat [1..<80]) \<and>
   int (party_count dppParty) \<le> indStartIndex (length (map mkSeat [1..<80])) \<and>
   indStartIndex (length (map mkSeat [1..<80])) + int (party_count indParty)
      + int (party_count kmtParty) \<le> int (length (map mkSeat [1..<80])) \<and>
   length (assignParties (map mkSeat [1..<80]) indParty dppParty kmtParty) = 79 \<and>
   (\<exists>d. assignParties (map mkSeat [1..<80]) indParty dppParty kmtParty ! 0 = Some d \<and>
      number d = 1 \<and> party d = ''DPP'' \<and> partySeatNumber d = 38) \<and>
   (\<exists>d. assignParties (map mkSeat [1..<80]) indParty dppParty kmtParty ! 37 = Some d \<and>
      number d = 38 \<and> party d = ''DPP'' \<and> partySeatNumber d = 1) \<and>
   (\<exists>d. assignParties (map mkSeat [1..<80]) indParty dppParty kmtParty ! 38 = Some d \<and>
      number d = 39 \<and> party d = ''IND'' \<and> partySeatNumber d = 1) \<and>
   (\<exists>d. assignParties (map mkSeat [1..<80]) indParty dppParty kmtParty ! 39 = Some d \<and>
      number d = 40 \<and> party d = ''IND'' \<and> partySeatNumber d = 2) \<and>
   (\<exists>d. assignParties (map mkSeat [1..<80]) indParty dppParty kmtParty ! 40 = Some d \<and>
      number d = 41 \<and> party d = ''KMT'' \<and> partySeatNumber d = 1) \<and>
   (\<exists>d. assignParties (map mkSeat [1..<80]) indParty dppParty kmtParty ! 78 = Some d \<and>
      number d = 79 \<and> party d = ''KMT'' \<and> partySeatNumber d = 39) \<and>
   filteredData (assignParties (map mkSeat [1..<80]) indParty dppParty kmtParty)
     = assignParties (map mkSeat [1..<80]) indParty dppParty kmtParty"
proof -
  let ?sc = "map mkSeat [1..<80]"
  have h: "party_count indParty + party_count dppParty + party_count kmtParty = length ?sc"
    "int (party_count dppParty) \<le> indStartIndex (length ?sc)"
    "indStartIndex (length ?sc) + int (party_count indParty)
      + int (party_count kmtParty) \<le> int (length ?sc)"
    by (simp_all add: indParty_def dppParty_def kmtParty_def indStartIndex_def)
  note t = assignParties_partition [OF h]
  have len: "length ?sc = 79" by simp
  have nth: "number (?sc ! i) = i + 1" if "i < 79" for i
    using that by (simp add: mkSeat_def)
  have at: "\<exists>d. assignParties ?sc indParty dppParty kmtParty ! i = Some d \<and>
      number d = i + 1 \<and>
      (if i < 38 then party d = ''DPP'' \<and> partySeatNumber d = 38 - i
       else if i < 40 then party d = ''IND'' \<and> partySeatNumber d = i - 38 + 1
       else party d = ''KMT'' \<and> partySeatNumber d = i - 38 - 2 + 1)" if i: "i < 79" for i
  proof -
    from t i len obtain d where d: "assignParties ?sc indParty dppParty kmtParty ! i = Some d"
      "number d = number (?sc ! i)"
      "if i < party_count dppParty
             then party d = party_id dppParty \<and> partyName d = party_name dppParty \<and>
                  color d = party_color dppParty \<and> partySeatNumber d = party_count dppParty - i
             else if i < party_count dppParty + party_count indParty
             then party d = party_id indParty \<and> partyName d = party_name indParty \<and>
                  color d = party_color indParty \<and> partySeatNumber d = i - party_count dppParty + 1
             else party d = party_id kmtParty \<and> partyName d = party_name kmtParty \<and>
                  color d = party_color kmtParty \<and>
                  partySeatNumber d = i - party_count dppParty - party_count indParty + 1"
      by (metis (no_types, lifting))
    show ?thesis
      using d(1) d(3) nth [OF i] d(2)
      by (intro exI [of _ d]) (simp add: indParty_def dppParty_def kmtParty_def split: if_splits)
  qed
  have l79: "length (assignParties ?sc indParty dppParty kmtParty) = 79"
    using t len by simp
  have fd: "filteredData (assignParties ?sc indParty dppParty kmtParty)
              = assignParties ?sc indParty dppParty kmtParty"
    using t by blast
  have e0: "\<exists>d. assignParties ?sc indParty dppParty kmtParty ! 0 = Some d \<and>
      number d = 1 \<and> party d = ''DPP'' \<and> partySeatNumber d = 38"
    using at [of 0] by simp
  have e37: "\<exists>d. assignParties ?sc indParty dppParty kmtParty ! 37 = Some d \<and>
      number d = 38 \<and> party d = ''DPP'' \<and> partySeatNumber d = 1"
    using at [of 37] by simp
  have e38: "\<exists>d. assignParties ?sc indParty dppParty kmtParty ! 38 = Some d \<and>
      number d = 39 \<and> party d = ''IND'' \<and> partySeatNumber d = 1"
    using at [of 38] by simp
  have e39: "\<exists>d. assignParties ?sc indParty dppParty kmtParty ! 39 = Some d \<and>
      number d = 40 \<and> party d = ''IND'' \<and> partySeatNumber d = 2"
    using at [of 39] by (simp add: numeral_2_eq_2)
  have e40: "\<exists>d. assignParties ?sc indParty dppParty kmtParty ! 40 = Some d \<and>
      number d = 41 \<and> party d = ''KMT'' \<and> partySeatNumber d = 1"
    using at [of 40] by simp
  have e78: "\<exists>d. assignParties ?sc indParty dppParty kmtParty ! 78 = Some d \<and>
      number d = 79 \<and> party d = ''KMT'' \<and> partySeatNumber d = 39"
    using at [of 78] by simp
  show ?thesis
    by (intro conjI h l79 e0 e37 e38 e39 e40 e78 fd)
qed

lemma five_seats: "map mkSeat [1..<6] = [mkSeat 1, mkSeat 2, mkSeat 3, mkSeat 4, mkSeat 5]"
  by (simp add: eval_nat_numeral upt_rec)

lemma assignParties_five:
  "assignParties (map mkSeat [1..<6]) (mkParty ''A'' 1) (mkParty ''B'' 1) (mkParty ''C'' 1) =
     [Some (assignSeat (mkSeat 1) (mkParty ''B'' 1) 1),
      Some (assignSeat (mkSeat 2) (mkParty ''A'' 1) 1),
      Some (assignSeat (mkSeat 3) (mkParty ''C'' 1) 1), None, None]"
proof -
  have u: "[0..0] = [0::int]" "[2..4] = [2::int, 3, 4]"
    by (simp_all add: upto_rec1)
  show ?thesis
    unfolding five_seats assignParties_def Let_def
    by (simp add: indStartIndex_def mkParty_def centerStep_def fillStep_def u)
qed

theorem assignParties_mismatch_counterexample:
  "party_count (mkParty ''A'' 1) + party_count (mkParty ''B'' 1) + party_count (mkParty ''C'' 1)
     \<noteq> length (map mkSeat [1..<6]) \<and>
   assignParties (map mkSeat [1..<6]) (mkParty ''A'' 1) (mkParty ''B'' 1) (mkParty ''C'' 1) ! 3 = None \<and>
   assignParties (map mkSeat [1..<6]) (mkParty ''A'' 1) (mkParty ''B'' 1) (mkParty ''C'' 1) ! 4 = None \<and>
   None \<notin> set (filteredData
     (assignParties (map mkSeat [1..<6]) (mkParty ''A'' 1) (mkParty ''B'' 1) (mkParty ''C'' 1))) \<and>
   length (filteredData
     (assignParties (map mkSeat [1..<6]) (mkParty ''A'' 1) (mkParty ''B'' 1) (mkParty ''C'' 1))) = 3"
  unfolding assignParties_five by (simp add: filteredData_def mkParty_def)

text \<open>
  Claim C7, amended. A mismatch between the seat counts and the number of seats is not
  reported: the seats left unassigned are filtered out of the result, which holds assigned
  seats only, at most as many as there are seats and at most as many as the counts sum to.
  When the counts sum to less than the number of seats, the result is shorter than the
  seat list.
\<close>

theorem assignParties_drops_unfilled:
  "None \<notin> set (filteredData (assignParties sc ind dpp kmt)) \<and>
   length (filteredData (assignParties sc ind dpp kmt)) \<le> length sc \<and>
   length (filteredData (assignParties sc ind dpp kmt))
     \<le> party_count ind + party_count dpp + party_count kmt \<and>
   (party_count ind + party_count dpp + party_count kmt < length sc \<longrightarrow>
      length (filteredData (assignParties sc ind dpp kmt)) < length sc)"
proof -
  have "length (filteredData (assignParties sc ind dpp kmt)) \<le> length (assignParties sc ind dpp kmt)"
    by (rule filteredData_le_length)
  then have "length (filteredData (assignParties sc ind dpp kmt)) \<le> length sc"
    by (simp add: length_assignParties)
  then show ?thesis
    using filteredData_no_None [of "assignParties sc ind dpp kmt"]
      filteredData_assignParties_le [of sc ind dpp kmt]
    by simp
qed

theorem assignParties_drops_unfilled_witness:
  "party_count (mkParty ''L'' 1) + party_count (mkParty ''M'' 0) + party_count (mkParty ''N'' 1)
     < length [mkSeat 1, mkSeat 2, mkSeat 3] \<and>
   length (filteredData (assignParties [mkSeat 1, mkSeat 2, mkSeat 3]
     (mkParty ''L'' 1) (mkParty ''M'' 0) (mkParty ''N'' 1))) < length [mkSeat 1, mkSeat 2, mkSeat 3]"
  using assignParties_drops_unfilled
    [of "[mkSeat 1, mkSeat 2, mkSeat 3]" "mkParty ''L'' 1" "mkParty ''M'' 0" "mkParty ''N'' 1"]
  by (simp add: mkParty_def)

section \<open>Candidates and seat sizes\<close>

lemma before_seatCmp:
  assumes "theta a = Fin ta" and "theta b = Fin tb"
  shows "before seatCmp a b \<longleftrightarrow>
           (row b < row a \<or> (row a = row b \<and> \<bar>ta - pi / 2\<bar> \<le> \<bar>tb - pi / 2\<bar>))"
  using assms
  by (auto simp: before_def seatCmp_def Let_def minus_jsnum_def Math_PI_def)

lemma seatBefore_finite:
  assumes "theta a = Fin ta" and "theta b = Fin tb"
  shows "seatBefore a b \<longleftrightarrow>
           (row b < row a \<or> (row a = row b \<and> \<bar>ta - pi / 2\<bar> \<le> \<bar>tb - pi / 2\<bar>))"
  using assms by (simp add: seatBefore_def minus_jsnum_def Math_PI_def)

lemma consistent_seatCmp:
  assumes "\<forall>s\<in>A. isFinite (theta s)"
  shows "consistent_on A seatCmp"
  unfolding consistent_on_def
proof (intro conjI ballI impI)
  fix a b assume "a \<in> A" "b \<in> A"
  then obtain ta tb where "theta a = Fin ta" "theta b = Fin tb"
    using assms by (metis isFinite.elims(2))
  then show "before seatCmp a b \<or> before seatCmp b a"
    by (simp add: before_seatCmp) linarith
next
  fix a b c assume "a \<in> A" "b \<in> A" "c \<in> A"
    and ab: "before seatCmp a b" and bc: "before seatCmp b c"
  then obtain ta tb tc where t: "theta a = Fin ta" "theta b = Fin tb" "theta c = Fin tc"
    using assms by (metis isFinite.elims(2))
  from ab t have 1: "row b < row a \<or> (row a = row b \<and> \<bar>ta - pi / 2\<bar> \<le> \<bar>tb - pi / 2\<bar>)"
    by (simp add: before_seatCmp)
  from bc t have 2: "row c < row b \<or> (row b = row c \<and> \<bar>tb - pi / 2\<bar> \<le> \<bar>tc - pi / 2\<bar>)"
    by (simp add: before_seatCmp)
  from 1 2 have "row c < row a \<or> (row a = row c \<and> \<bar>ta - pi / 2\<bar> \<le> \<bar>tc - pi / 2\<bar>)"
    by linarith
  then show "before seatCmp a c" using t by (simp add: before_seatCmp)
qed

lemma partyOrder_known:
  "p \<in> {''IND'', ''DPP'', ''KMT''} \<Longrightarrow> \<exists>x. partyOrder p = Fin x"
  by (auto simp: partyOrder_def)

lemma before_candidateCmp:
  assumes "partyOrder (partyId a) = Fin x" and "partyOrder (partyId b) = Fin y"
    and "cand_votes a = Fin va" and "cand_votes b = Fin vb"
  shows "before candidateCmp a b \<longleftrightarrow> (x < y \<or> (x = y \<and> vb \<le> va))"
  using assms by (auto simp: before_def candidateCmp_def Let_def minus_jsnum_def)

lemma wellFormedRowE:
  assumes "wellFormedRow c"
  obtains x v where "partyOrder (partyId c) = Fin x" and "cand_votes c = Fin v"
proof -
  obtain x where "partyOrder (partyId c) = Fin x"
    using assms partyOrder_known unfolding wellFormedRow_def by blast
  moreover obtain v where "cand_votes c = Fin v"
    using assms unfolding wellFormedRow_def by (cases "cand_votes c") auto
  ultimately show ?thesis using that by blast
qed

lemma consistent_candidateCmp:
  assumes "\<forall>c\<in>A. wellFormedRow c"
  shows "consistent_on A candidateCmp"
  unfolding consistent_on_def
proof (intro conjI ballI impI)
  fix a b assume "a \<in> A" "b \<in> A"
  then have "wellFormedRow a" "wellFormedRow b" using assms by auto
  then obtain x y va vb where
    "partyOrder (partyId a) = Fin x" "cand_votes a = Fin va"
    "partyOrder (partyId b) = Fin y" "cand_votes b = Fin vb"
    by (elim wellFormedRowE) blast
  then show "before candidateCmp a b \<or> before candidateCmp b a"
    using before_candidateCmp [of a x b y va vb] before_candidateCmp [of b y a x vb va]
    by linarith
next
  fix a b c assume "a \<in> A" "b \<in> A" "c \<in> A"
    and ab: "before candidateCmp a b" and bc: "before candidateCmp b c"
  then have "wellFormedRow a" "wellFormedRow b" "wellFormedRow c" using assms by auto
  then obtain x y z va vb vc where e:
    "partyOrder (partyId a) = Fin x" "cand_votes a = Fin va"
    "partyOrder (partyId b) = Fin y" "cand_votes b = Fin vb"
    "partyOrder (partyId c) = Fin z" "cand_votes c = Fin vc"
    by (elim wellFormedRowE) blast
  from ab e have 1: "x < y \<or> (x = y \<and> vb \<le> va)"
    using before_candidateCmp [of a x b y va vb] by simp
  from bc e have 2: "y < z \<or> (y = z \<and> vc \<le> vb)"
    using before_candidateCmp [of b y c z vb vc] by simp
  from 1 2 have "x < z \<or> (x = z \<and> vc \<le> va)" by linarith
  then show "before candidateCmp a c"
    using before_candidateCmp [of a x c z va vc] e by simp
qed

lemma partyCandidates_sorted:
  assumes "\<forall>c\<in>set rows. wellFormedRow c"
  shows "sorted_wrt (\<lambda>c d. js_le (cand_votes d) (cand_votes c))
           (partyCandidates p (loadCandidateData rows))"
proof -
  let ?pc = "partyCandidates p (loadCandidateData rows)"
  have "sorted_wrt (before candidateCmp) (loadCandidateData rows)"
    unfolding loadCandidateData_def
    by (rule sorted_array_sort) (rule consistent_candidateCmp [OF assms])
  then have srt: "sorted_wrt (before candidateCmp) ?pc"
    unfolding partyCandidates_def by (rule sorted_wrt_filter)
  have mem: "wellFormedRow c \<and> partyId c = p" if "c \<in> set ?pc" for c
    using that assms unfolding partyCandidates_def loadCandidateData_def
    by (simp add: set_array_sort)
  show ?thesis
  proof (rule sorted_wrt_mono_rel [OF _ srt])
    fix a b assume a: "a \<in> set ?pc" and b: "b \<in> set ?pc" and ab: "before candidateCmp a b"
    from mem [OF a] mem [OF b] have same: "partyId a = partyId b"
      and w: "wellFormedRow a" "wellFormedRow b" by simp_all
    from w obtain x y va vb where e:
      "partyOrder (partyId a) = Fin x" "cand_votes a = Fin va"
      "partyOrder (partyId b) = Fin y" "cand_votes b = Fin vb"
      by (elim wellFormedRowE) blast
    with same have "x = y" by simp
    with ab e have "vb \<le> va" using before_candidateCmp [of a x b y va vb] by simp
    then show "js_le (cand_votes b) (cand_votes a)" using e by simp
  qed
qed

lemma mset_partyCandidates:
  "mset (partyCandidates p (loadCandidateData rows)) = mset (filter (\<lambda>c. partyId c = p) rows)"
  unfolding partyCandidates_def loadCandidateData_def
  by (simp add: mset_filter mset_array_sort)

lemma length_bindCandidates: "length (bindCandidates seats cands) = length seats"
  by (simp add: bindCandidates_def length_array_sort)

lemma nth_bindCandidates:
  assumes "i < length seats"
  shows "seat_of (bindCandidates seats cands ! i) = array_sort seatCmp seats ! i"
    and "rank (bindCandidates seats cands ! i) = i + 1"
    and "i < length cands \<Longrightarrow>
           candidateName (bindCandidates seats cands ! i) = CandidateName (cand_name (cands ! i)) \<and>
           votes (bindCandidates seats cands ! i) = cand_votes (cands ! i)"
    and "\<not> i < length cands \<Longrightarrow>
           candidateName (bindCandidates seats cands ! i) = Placeholder (i + 1) \<and>
           votes (bindCandidates seats cands ! i) = Fin 0"
  using assms
  by (simp_all add: bindCandidates_def length_array_sort nth_enumerate_eq Let_def)

lemma map_seat_of_bindCandidates:
  "map seat_of (bindCandidates seats cands) = array_sort seatCmp seats"
  by (rule nth_equalityI)
     (simp_all add: length_bindCandidates length_array_sort nth_bindCandidates)

lemma sorted_seats:
  assumes "\<forall>s\<in>set seats. isFinite (theta s)"
  shows "sorted_wrt seatBefore (array_sort seatCmp seats)"
proof -
  have srt: "sorted_wrt (before seatCmp) (array_sort seatCmp seats)"
    by (rule sorted_array_sort) (rule consistent_seatCmp [OF assms])
  show ?thesis
  proof (rule sorted_wrt_mono_rel [OF _ srt])
    fix a b assume "a \<in> set (array_sort seatCmp seats)" "b \<in> set (array_sort seatCmp seats)"
      and ab: "before seatCmp a b"
    then have "isFinite (theta a)" "isFinite (theta b)"
      using assms by (simp_all add: set_array_sort)
    then obtain ta tb where t: "theta a = Fin ta" "theta b = Fin tb"
      by (metis isFinite.elims(2))
    then show "seatBefore a b"
      using ab by (simp add: before_seatCmp seatBefore_finite)
  qed
qed

text \<open>
  Claim C5. The seats of one party are re-sorted by row descending and, within a row, by
  the distance of the angle to \<open>pi / 2\<close> ascending; the party's candidates, which
  \<open>loadCandidateData\<close> has sorted by descending vote count, are bound to the seats in that
  order, and the rank of a seat is its 1-based position in that order. Seats beyond the
  last candidate get a placeholder label and 0 votes.
\<close>

theorem bindCandidates_order:
  assumes "\<forall>s\<in>set seats. isFinite (theta s)" and "\<forall>c\<in>set rows. wellFormedRow c"
  shows "mset (map seat_of (bindCandidates seats (partyCandidates p (loadCandidateData rows))))
           = mset seats \<and>
         sorted_wrt seatBefore
           (map seat_of (bindCandidates seats (partyCandidates p (loadCandidateData rows)))) \<and>
         mset (partyCandidates p (loadCandidateData rows))
           = mset (filter (\<lambda>c. partyId c = p) rows) \<and>
         sorted_wrt (\<lambda>c d. js_le (cand_votes d) (cand_votes c))
           (partyCandidates p (loadCandidateData rows)) \<and>
         (\<forall>i<length seats.
            rank (bindCandidates seats (partyCandidates p (loadCandidateData rows)) ! i) = i + 1 \<and>
            (if i < length (partyCandidates p (loadCandidateData rows))
             then candidateName (bindCandidates seats (partyCandidates p (loadCandidateData rows)) ! i)
                    = CandidateName (cand_name (partyCandidates p (loadCandidateData rows) ! i)) \<and>
                  votes (bindCandidates seats (partyCandidates p (loadCandidateData rows)) ! i)
                    = cand_votes (partyCandidates p (loadCandidateData rows) ! i)
             else candidateName (bindCandidates seats (partyCandidates p (loadCandidateData rows)) ! i)
                    = Placeholder (i + 1) \<and>
                  votes (bindCandidates seats (partyCandidates p (loadCandidateData rows)) ! i)
                    = Fin 0))"
proof (intro conjI allI impI)
  let ?pc = "partyCandidates p (loadCandidateData rows)"
  show "mset (map seat_of (bindCandidates seats ?pc)) = mset seats"
    by (simp add: map_seat_of_bindCandidates mset_array_sort)
  show "sorted_wrt seatBefore (map seat_of (bindCandidates seats ?pc))"
    unfolding map_seat_of_bindCandidates by (rule sorted_seats [OF assms(1)])
  show "mset ?pc = mset (filter (\<lambda>c. partyId c = p) rows)"
    by (rule mset_partyCandidates)
  show "sorted_wrt (\<lambda>c d. js_le (cand_votes d) (cand_votes c)) ?pc"
    by (rule partyCandidates_sorted [OF assms(2)])
  fix i assume i: "i < length seats"
  show "rank (bindCandidates seats ?pc ! i) = i + 1"
    by (rule nth_bindCandidates [OF i])
  show "if i < length ?pc
        then candidateName (bindCandidates seats ?pc ! i) = CandidateName (cand_name (?pc ! i)) \<and>
             votes (bindCandidates seats ?pc ! i) = cand_votes (?pc ! i)
        else candidateName (bindCandidates seats ?pc ! i) = Placeholder (i + 1) \<and>
             votes (bindCandidates seats ?pc ! i) = Fin 0"
    using nth_bindCandidates(3,4) [OF i, of ?pc] by (simp only: split: if_split) blast
qed

lemma bindCandidates_example:
  "bindCandidates [mkPartySeat 0 (pi / 2), mkPartySeat 1 pi, mkPartySeat 1 (pi / 2)]
     (partyCandidates ''DPP'' (loadCandidateData
        [mkCandidate ''DPP'' (Fin 10), mkCandidate ''KMT'' (Fin 99), mkCandidate ''DPP'' (Fin 30)]))
   = [\<lparr>seat_of = mkPartySeat 1 (pi / 2), candidateName = CandidateName ''name'', rank = 1,
        votes = Fin 30\<rparr>,
      \<lparr>seat_of = mkPartySeat 1 pi, candidateName = CandidateName ''name'', rank = 2,
        votes = Fin 10\<rparr>,
      \<lparr>seat_of = mkPartySeat 0 (pi / 2), candidateName = Placeholder 3, rank = 3,
        votes = Fin 0\<rparr>]"
proof -
  have c: "partyCandidates ''DPP'' (loadCandidateData
        [mkCandidate ''DPP'' (Fin 10), mkCandidate ''KMT'' (Fin 99), mkCandidate ''DPP'' (Fin 30)])
      = [mkCandidate ''DPP'' (Fin 30), mkCandidate ''DPP'' (Fin 10)]"
    by (simp add: partyCandidates_def loadCandidateData_def before_def candidateCmp_def
        partyOrder_def mkCandidate_def minus_jsnum_def)
  have s: "array_sort seatCmp [mkPartySeat 0 (pi / 2), mkPartySeat 1 pi, mkPartySeat 1 (pi / 2)]
      = [mkPartySeat 1 (pi / 2), mkPartySeat 1 pi, mkPartySeat 0 (pi / 2)]"
    by (simp add: before_def seatCmp_def mkPartySeat_def assignSeat_def mkSeat_def Let_def
        minus_jsnum_def Math_PI_def not_le)
  show ?thesis
    unfolding c bindCandidates_def s
    by (simp add: enumerate_simps mkCandidate_def)
qed

theorem bindCandidates_order_witness:
  "isFinite (theta (mkPartySeat 0 (pi / 2))) \<and> isFinite (theta (mkPartySeat 1 pi)) \<and>
   wellFormedRow (mkCandidate ''DPP'' (Fin 10)) \<and> wellFormedRow (mkCandidate ''DPP'' (Fin 30)) \<and>
   sorted_wrt seatBefore
     (map seat_of (bindCandidates [mkPartySeat 0 (pi / 2), mkPartySeat 1 pi]
        (partyCandidates ''DPP'' (loadCandidateData
           [mkCandidate ''DPP'' (Fin 10), mkCandidate ''DPP'' (Fin 30)])))) \<and>
   sorted_wrt (\<lambda>c d. js_le (cand_votes d) (cand_votes c))
     (partyCandidates ''DPP'' (loadCandidateData
        [mkCandidate ''DPP'' (Fin 10), mkCandidate ''DPP'' (Fin 30)])) \<and>
   rank (bindCandidates [mkPartySeat 0 (pi / 2), mkPartySeat 1 pi]
        (partyCandidates ''DPP'' (loadCandidateData
           [mkCandidate ''DPP'' (Fin 10), mkCandidate ''DPP'' (Fin 30)])) ! 0) = 0 + 1"
proof -
  have f: "isFinite (theta (mkPartySeat 0 (pi / 2)))" "isFinite (theta (mkPartySeat 1 pi))"
    by (simp_all add: mkPartySeat_def assignSeat_def mkSeat_def)
  have w: "wellFormedRow (mkCandidate ''DPP'' (Fin 10))" "wellFormedRow (mkCandidate ''DPP'' (Fin 30))"
    by (simp_all add: wellFormedRow_def mkCandidate_def)
  have h1: "\<forall>s\<in>set [mkPartySeat 0 (pi / 2), mkPartySeat 1 pi]. isFinite (theta s)"
    using f by simp
  have h2: "\<forall>c\<in>set [mkCandidate ''DPP'' (Fin 10), mkCandidate ''DPP'' (Fin 30)]. wellFormedRow c"
    using w by simp
  have i: "0 < length [mkPartySeat 0 (pi / 2), mkPartySeat 1 pi]" by simp
  show ?thesis
    using f w i bindCandidates_order [OF h1 h2, of "''DPP''"] by blast
qed

text \<open>
  Claim C6. A seat with a positive vote count gets the radius
  \<open>sqrt (votes / (areaDivisor * pi))\<close>, so that the area of its circle is
  \<open>votes / areaDivisor\<close>; twice the votes give \<open>sqrt 2\<close> times the radius. A seat whose
  vote count is zero, negative or not a number gets the default radius.
\<close>

theorem seatRadius_area:
  "(0 < v \<longrightarrow>
      radius (withRadius base (s\<lparr>votes := Fin v\<rparr>)) = Fin (sqrt (v / (18 * pi))) \<and>
      pi * (sqrt (v / (18 * pi)))\<^sup>2 = v / 18 \<and>
      seatRadius (Fin (2 * v)) base = Fin (sqrt 2 * sqrt (v / (18 * pi)))) \<and>
   (v \<le> 0 \<longrightarrow> radius (withRadius base (s\<lparr>votes := Fin v\<rparr>)) = base) \<and>
   radius (withRadius base (s\<lparr>votes := NaN\<rparr>)) = base"
proof (intro conjI impI)
  assume v: "0 < v"
  then have nn: "0 \<le> v / (18 * pi)" "0 \<le> 2 * v / (18 * pi)" by simp_all
  then have nneg: "\<not> v / (18 * pi) < 0" "\<not> 2 * v / (18 * pi) < 0" by (simp_all only: not_less)
  show "radius (withRadius base (s\<lparr>votes := Fin v\<rparr>)) = Fin (sqrt (v / (18 * pi)))"
    using v nneg by (simp add: withRadius_def seatRadius_def truthy_def areaDivisor_def Math_PI_def)
  from nn have "(sqrt (v / (18 * pi)))\<^sup>2 = v / (18 * pi)" by simp
  then show "pi * (sqrt (v / (18 * pi)))\<^sup>2 = v / 18" by simp
  have "sqrt (2 * v / (18 * pi)) = sqrt (2 * (v / (18 * pi)))" by simp
  also have "\<dots> = sqrt 2 * sqrt (v / (18 * pi))" by (rule real_sqrt_mult)
  finally show "seatRadius (Fin (2 * v)) base = Fin (sqrt 2 * sqrt (v / (18 * pi)))"
    using v nneg by (simp add: seatRadius_def truthy_def areaDivisor_def Math_PI_def)
next
  assume "v \<le> 0"
  then show "radius (withRadius base (s\<lparr>votes := Fin v\<rparr>)) = base"
    by (simp add: withRadius_def seatRadius_def truthy_def)
next
  show "radius (withRadius base (s\<lparr>votes := NaN\<rparr>)) = base"
    by (simp add: withRadius_def seatRadius_def truthy_def)
qed

theorem seatRadius_area_witness:
  "(0::real) < 36 \<and>
   radius (withRadius (Fin 18) (exampleSeat\<lparr>votes := Fin 36\<rparr>)) = Fin (sqrt (36 / (18 * pi))) \<and>
   seatRadius (Fin (2 * 36)) (Fin 18) = Fin (sqrt 2 * sqrt (36 / (18 * pi))) \<and>
   (0::real) \<le> 0 \<and>
   radius (withRadius (Fin 18) (exampleSeat\<lparr>votes := Fin 0\<rparr>)) = Fin 18"
proof -
  have h1: "(0::real) < 36" and h2: "(0::real) \<le> 0" by simp_all
  from seatRadius_area [of 36 "Fin 18" exampleSeat] h1
  have a: "radius (withRadius (Fin 18) (exampleSeat\<lparr>votes := Fin 36\<rparr>)) = Fin (sqrt (36 / (18 * pi)))"
    and b: "seatRadius (Fin (2 * 36)) (Fin 18) = Fin (sqrt 2 * sqrt (36 / (18 * pi)))"
    by blast+
  from seatRadius_area [of 0 "Fin 18" exampleSeat] h2
  have c: "radius (withRadius (Fin 18) (exampleSeat\<lparr>votes := Fin 0\<rparr>)) = Fin 18"
    by blast
  show ?thesis by (intro conjI h1 h2 a b c)
qed

section \<open>Jenks natural breaks\<close>

lemma fold_invariant:
  assumes "P s" and "\<And>x s. x \<in> set xs \<Longrightarrow> P s \<Longrightarrow> P (f x s)"
  shows "P (fold f xs s)"
  using assms by (induction xs arbitrary: s) simp_all

lemma set2_other_row:
  "i \<noteq> n \<Longrightarrow> set2 a i j v ! n = a ! n" "length (set2 a i j v) = length a"
  by (simp_all add: set2_def)

lemma lastRow_initColumn:
  assumes "lastRowUntouched n k t" and "0 < n"
  shows "lastRowUntouched n k (initColumn d i t)"
  using assms by (simp add: lastRowUntouched_def initColumn_def Let_def set2_other_row)

lemma lastRow_initTables:
  assumes "0 < n"
  shows "lastRowUntouched n k (initTables n k)"
  unfolding initTables_def
proof (rule fold_invariant)
  show "lastRowUntouched n k
     \<lparr>matrix = replicate (n + 1) (replicate (k + 1) (Fin 0)),
        lowerClassLimit = replicate (n + 1) (replicate (k + 1) 0)\<rparr>"
    unfolding lastRowUntouched_def by (simp del: replicate_Suc replicate.simps)
next
  fix x s assume "lastRowUntouched n k s"
  then show "lastRowUntouched n k (initColumn n x s)"
    using assms by (rule lastRow_initColumn)
qed

lemma lastRow_innerJ:
  assumes "lastRowUntouched n k t" and "l < n"
  shows "lastRowUntouched n k (innerJ l i4 lci variance j t)"
  using assms by (simp add: lastRowUntouched_def innerJ_def set2_other_row)

lemma lastRow_innerM:
  assumes "lastRowUntouched n k (snd (snd (snd (snd st))))" and "l < n"
  shows "lastRowUntouched n k (snd (snd (snd (snd (innerM sortedData k' l m st)))))"
proof -
  obtain sumv sumSquares w variance t where st: "st = (sumv, sumSquares, w, variance, t)"
    by (cases st) auto
  have t: "lastRowUntouched n k t" using assms(1) st by simp
  have "lastRowUntouched n k (fold (innerJ l i4 lci v) js t)" for i4 lci v js
    by (rule fold_invariant [where P = "lastRowUntouched n k", OF t])
       (rule lastRow_innerJ [OF _ assms(2)])
  then show ?thesis
    using t unfolding st innerM_def Let_def by simp
qed

lemma lastRow_outerL:
  assumes "lastRowUntouched n k (snd st)" and "l < n"
  shows "lastRowUntouched n k (snd (outerL sortedData k' l st))"
proof -
  let ?r = "fold (innerM sortedData k' l) [0..<l + 1] (0, 0, 0, fst st, snd st)"
  have inv: "lastRowUntouched n k (snd (snd (snd (snd ?r))))"
    by (rule fold_invariant [where P = "\<lambda>s. lastRowUntouched n k (snd (snd (snd (snd s))))"])
       (simp_all add: assms lastRow_innerM)
  obtain sumv sumSquares w variance t where r: "?r = (sumv, sumSquares, w, variance, t)"
    by (cases ?r) auto
  with inv have "lastRowUntouched n k t" by simp
  then show ?thesis
    unfolding outerL_def r using assms(2)
    by (simp add: lastRowUntouched_def set2_other_row)
qed

lemma lastRow_main_loop:
  assumes "0 < n"
  shows "lastRowUntouched n k (snd (fold (outerL sortedData k') [0..<n] (0, initTables n k)))"
proof (rule fold_invariant [where P = "\<lambda>s. lastRowUntouched n k (snd s)"])
  show "lastRowUntouched n k (snd (0, initTables n k))"
    using lastRow_initTables [OF assms] by simp
next
  fix x and s :: "real \<times> jenksTables"
  assume "x \<in> set [0..<n]" and "lastRowUntouched n k (snd s)"
  then show "lastRowUntouched n k (snd (outerL sortedData k' x s))"
    by (intro lastRow_outerL) simp_all
qed

lemma extractMarkers_last_row:
  assumes "lastRowUntouched n k t" and "0 < k"
  shows "extractMarkers (lowerClassLimit t) sortedData (int n) k [] =
           (if k = 1 then Inr [None] else Inl TypeError)"
proof -
  obtain j' where k: "k = Suc j'" using assms(2) by (cases k) auto
  have len: "length (lowerClassLimit t) = n + 1"
    and row: "lowerClassLimit t ! n = replicate (k + 1) 0"
    using assms(1) by (simp_all add: lastRowUntouched_def)
  have v: "lowerClassLimit t ! n ! Suc j' = 0"
    unfolding row k by (simp del: replicate_Suc replicate.simps)
  have step: "extractMarkers (lowerClassLimit t) sortedData (int n) (Suc j') [] =
        extractMarkers (lowerClassLimit t) sortedData (- 1) j' [None]"
    using len v by (simp add: Let_def)
  show ?thesis
  proof (cases j')
    case 0
    then show ?thesis unfolding k step by simp
  next
    case (Suc j'')
    then show ?thesis unfolding k step by simp
  qed
qed

lemma jenksNaturalBreaks_result:
  assumes "data \<noteq> []"
  shows "jenksNaturalBreaks data nClasses =
           (if nClasses = 0 then Inr []
            else if nClasses = 1 \<or> length data = 1 then Inr [None]
            else Inl TypeError)"
proof -
  define sortedData where "sortedData = array_sort (\<lambda>a b. Fin (a - b)) data"
  define n where "n = length sortedData"
  define k where "k = (if nClasses > n then n else nClasses)"
  define st where "st = fold (outerL sortedData k) [0..<n] (0, initTables n k)"
  have n: "n = length data" unfolding n_def sortedData_def by (simp add: length_array_sort)
  then have npos: "0 < n" using assms by simp
  have res: "jenksNaturalBreaks data nClasses =
               extractMarkers (lowerClassLimit (snd st)) sortedData (int n) k []"
    using assms unfolding jenksNaturalBreaks_def Let_def st_def k_def n_def sortedData_def
    by simp
  have inv: "lastRowUntouched n k (snd st)"
    unfolding st_def by (rule lastRow_main_loop [OF npos])
  show ?thesis
  proof (cases "k = 0")
    case True
    then have "nClasses = 0" using npos unfolding k_def by (simp split: if_splits)
    with True show ?thesis unfolding res by simp
  next
    case False
    then have kpos: "0 < k" by simp
    then have nz: "nClasses \<noteq> 0" unfolding k_def by (simp split: if_splits)
    have "(k = 1) = (nClasses = 1 \<or> length data = 1)"
      using nz npos unfolding k_def n by (auto split: if_splits)
    then show ?thesis
      unfolding res extractMarkers_last_row [OF inv kpos] using nz by simp
  qed
qed

text \<open>
  Claim C4. The function returns no break values: the last loop starts at row
  \<open>dataLength\<close> of \<open>lowerClassLimit\<close>, which the loops above never write (they stop at
  \<open>dataLength - 1\<close>). For \<open>[1, 2, 3]\<close> and 2 classes, and for the nine values of the
  three natural groups and 3 classes, the second round indexes \<open>lowerClassLimit[-1]\<close> and
  throws; for one class the result is the array \<open>[undefined]\<close>.
\<close>

theorem jenksNaturalBreaks_throws:
  "jenksNaturalBreaks [1, 2, 3] 2 = Inl TypeError \<and>
   jenksNaturalBreaks [1, 2, 3, 10, 11, 12, 50, 51, 52] 3 = Inl TypeError \<and>
   jenksNaturalBreaks [1, 2, 3] 1 = Inr [None]"
  by (simp add: jenksNaturalBreaks_result)

section \<open>Seat positions: numbering, order and the exact total\<close>

lemma theta_rowSeats:
  assumes "s \<in> set (rowSeats r i (Fin c) k)"
  shows "isFinite (theta s)"
proof -
  obtain d where d: "js_or (Fin c - Fin 1) (Fin 1) = Fin d" "d \<noteq> 0"
    by (cases "c - 1 = 0") (simp_all add: js_or_def truthy_def minus_jsnum_def)
  then have "Math_PI / js_or (Fin c - Fin 1) (Fin 1) = Fin (pi / d)"
    by (simp add: Math_PI_def)
  then show ?thesis
    using assms unfolding rowSeats_def Let_def
    by (auto simp: Math_PI_def minus_jsnum_def)
qed

lemma rowSeats_zero: "rowSeats r i cnt 0 = []"
  by (simp add: rowSeats_def Let_def)

lemma theta_allRowSeats:
  "allRowSeats radii cnts i = Some cs \<Longrightarrow> s \<in> set cs \<Longrightarrow> isFinite (theta s)"
proof (induction radii cnts i arbitrary: cs rule: allRowSeats.induct)
  case (1 r radii cnt cnts rowIndex)
  from "1.prems"(1) obtain k rest where k: "iterations cnt = Some k"
    and rest: "allRowSeats radii cnts (rowIndex + 1) = Some rest"
    and cs: "cs = rowSeats r rowIndex cnt k @ rest"
    by (auto split: option.splits)
  from "1.prems"(2) cs consider "s \<in> set (rowSeats r rowIndex cnt k)" | "s \<in> set rest" by auto
  then show ?case
  proof cases
    case 1
    show ?thesis
    proof (cases cnt)
      case (Fin c)
      with 1 show ?thesis by (simp add: theta_rowSeats)
    next
      case PInf
      with k show ?thesis by simp
    next
      case NInf
      with k 1 show ?thesis by (simp add: rowSeats_zero)
    next
      case NaN
      with k 1 show ?thesis by (simp add: rowSeats_zero)
    qed
  next
    case 2
    with "1.IH" k rest show ?thesis by simp
  qed
qed simp_all

lemma before_theta_desc:
  assumes "theta a = Fin ta" and "theta b = Fin tb"
  shows "before (\<lambda>a b. theta b - theta a) a b \<longleftrightarrow> tb \<le> ta"
  using assms by (simp add: before_def minus_jsnum_def)

lemma consistent_theta_desc:
  assumes "\<forall>s\<in>A. isFinite (theta s)"
  shows "consistent_on A (\<lambda>a b. theta b - theta a)"
  unfolding consistent_on_def
proof (intro conjI ballI impI)
  fix a b assume "a \<in> A" "b \<in> A"
  then obtain ta tb where "theta a = Fin ta" "theta b = Fin tb"
    using assms by (metis isFinite.elims(2))
  then show "before (\<lambda>a b. theta b - theta a) a b \<or> before (\<lambda>a b. theta b - theta a) b a"
    by (simp add: before_theta_desc) linarith
next
  fix a b c assume "a \<in> A" "b \<in> A" "c \<in> A"
    and ab: "before (\<lambda>a b. theta b - theta a) a b"
    and bc: "before (\<lambda>a b. theta b - theta a) b c"
  then obtain ta tb tc where t: "theta a = Fin ta" "theta b = Fin tb" "theta c = Fin tc"
    using assms by (metis isFinite.elims(2))
  with ab bc have "tb \<le> ta" "tc \<le> tb" by (simp_all add: before_theta_desc)
  then have "tc \<le> ta" by linarith
  with t show "before (\<lambda>a b. theta b - theta a) a c" by (simp add: before_theta_desc)
qed

lemma generateParliamentSeats_sorted:
  assumes "generateParliamentSeats totalSeats rowCount innerRadius outerRadius = Some seats"
  shows "map number seats = [1..<Suc (length seats)] \<and>
         sorted_wrt (\<lambda>a b. js_le b a) (map theta seats)"
proof -
  let ?radii = "rowRadii rowCount innerRadius outerRadius"
  obtain cs where cs: "allRowSeats ?radii (rowCounts totalSeats rowCount ?radii) 0 = Some cs"
    and seats: "seats = numberSeats (array_sort (\<lambda>a b. theta b - theta a) cs)"
    using assms unfolding generateParliamentSeats_def Let_def by (auto split: option.splits)
  let ?sorted = "array_sort (\<lambda>a b. theta b - theta a) cs"
  have fin: "\<forall>s\<in>set cs. isFinite (theta s)"
    using theta_allRowSeats [OF cs] by blast
  have srt: "sorted_wrt (before (\<lambda>a b. theta b - theta a)) ?sorted"
    by (rule sorted_array_sort) (rule consistent_theta_desc [OF fin])
  have "sorted_wrt (\<lambda>a b. js_le (theta b) (theta a)) ?sorted"
  proof (rule sorted_wrt_mono_rel [OF _ srt])
    fix a b assume "a \<in> set ?sorted" "b \<in> set ?sorted"
      and ab: "before (\<lambda>a b. theta b - theta a) a b"
    then have "isFinite (theta a)" "isFinite (theta b)"
      using fin by (simp_all add: set_array_sort)
    then obtain ta tb where t: "theta a = Fin ta" "theta b = Fin tb"
      by (metis isFinite.elims(2))
    with ab show "js_le (theta b) (theta a)" by (simp add: before_theta_desc)
  qed
  then have "sorted_wrt (\<lambda>a b. js_le b a) (map theta ?sorted)"
    by (simp add: sorted_wrt_map)
  then have "sorted_wrt (\<lambda>a b. js_le b a) (map theta seats)"
    unfolding seats by (simp only: map_fields_numberSeats)
  moreover have "map number seats = [1..<Suc (length seats)]"
    unfolding seats by (simp only: map_number_numberSeats length_numberSeats)
  ultimately show ?thesis by simp
qed

lemma rowRadii_finite:
  assumes "2 \<le> rowCount"
  shows "rowRadii rowCount (Fin a) (Fin b)
           = map (\<lambda>i. Fin (a + real i * ((b - a) / (real rowCount - 1)))) [0..<rowCount]"
proof -
  have "real rowCount - 1 \<noteq> 0" using assms by simp
  then have "(Fin b - Fin a) / Fin (real rowCount - 1) = Fin ((b - a) / (real rowCount - 1))"
    by (simp add: minus_jsnum_def)
  then show ?thesis by (simp add: rowRadii_def Let_def)
qed

lemma d3_sum_fold_pos:
  assumes "\<forall>x\<in>set xs. x \<noteq> 0"
  shows "fold (\<lambda>value s. if truthy value then s + value else s) (map Fin xs) (Fin s0)
           = Fin (s0 + sum_list xs)"
  using assms by (induction xs arbitrary: s0) (simp_all add: truthy_def add.assoc)

lemma d3_sum_pos:
  assumes "\<forall>x\<in>set xs. x \<noteq> 0"
  shows "d3_sum (map Fin xs) = Fin (sum_list xs)"
  unfolding d3_sum_def using d3_sum_fold_pos [OF assms, of 0] by simp

lemma rowCountsFrom_int:
  assumes "tot \<noteq> 0" and "\<forall>x\<in>set as. 0 \<le> x / tot" and "0 \<le> t" and "i + length as = n"
  shows "\<exists>zs. rowCountsFrom (Fin (of_int t)) n (Fin tot) i (Fin (of_int a)) (map Fin as)
                 = map (\<lambda>z. Fin (of_int z)) zs \<and>
              length zs = length as \<and>
              (as \<noteq> [] \<longrightarrow> a + sum_list zs = t) \<and>
              (\<forall>z\<in>set (butlast zs). 0 \<le> z)"
  using assms(2,4)
proof (induction as arbitrary: i a)
  case Nil
  then show ?case by simp
next
  case (Cons x rest)
  show ?case
  proof (cases "rest = []")
    case True
    then have "int i = int n - 1" using Cons.prems(2) by simp
    then have "rowCountsFrom (Fin (of_int t)) n (Fin tot) i (Fin (of_int a)) (map Fin (x # rest))
                 = map (\<lambda>z. Fin (of_int z)) [t - a]"
      using True by (simp add: minus_jsnum_def)
    then show ?thesis using True by (intro exI [of _ "[t - a]"]) simp
  next
    case False
    then have ne: "int i \<noteq> int n - 1" using Cons.prems(2) by (cases rest) auto
    define z where "z = \<lfloor>of_int t * (x / tot) + 1 / 2 :: real\<rfloor>"
    have "0 \<le> x / tot" using Cons.prems(1) by simp
    moreover have "0 \<le> (of_int t :: real)" using assms(3) by simp
    ultimately have "0 \<le> of_int t * (x / tot)" by (rule mult_nonneg_nonneg [rotated])
    then have "0 \<le> of_int t * (x / tot) + 1 / 2" by linarith
    then have zpos: "0 \<le> z" unfolding z_def by simp
    have cnt: "Math_round (Fin (of_int t) * (Fin x / Fin tot)) = Fin (of_int z)"
      using assms(1) unfolding z_def by simp
    have alloc: "Fin (of_int a) + Fin (of_int z) = Fin (of_int (a + z))" by simp
    obtain zs where zs:
      "rowCountsFrom (Fin (of_int t)) n (Fin tot) (i + 1) (Fin (of_int (a + z))) (map Fin rest)
         = map (\<lambda>z. Fin (of_int z)) zs"
      "length zs = length rest" "rest \<noteq> [] \<longrightarrow> (a + z) + sum_list zs = t"
      "\<forall>z\<in>set (butlast zs). 0 \<le> z"
      using Cons.IH [of "i + 1" "a + z"] Cons.prems by auto
    have "rowCountsFrom (Fin (of_int t)) n (Fin tot) i (Fin (of_int a)) (map Fin (x # rest))
            = map (\<lambda>z. Fin (of_int z)) (z # zs)"
    proof -
      have step: "rowCountsFrom (Fin (of_int t)) n (Fin tot) i (Fin (of_int a)) (Fin x # map Fin rest)
          = Math_round (Fin (of_int t) * (Fin x / Fin tot))
              # rowCountsFrom (Fin (of_int t)) n (Fin tot) (i + 1)
                  (Fin (of_int a) + Math_round (Fin (of_int t) * (Fin x / Fin tot))) (map Fin rest)"
        using ne by (simp only: rowCountsFrom.simps Let_def if_False)
      show ?thesis
        unfolding list.map step cnt alloc zs(1) by simp
    qed
    moreover have "zs \<noteq> []" using zs(2) False by auto
    ultimately show ?thesis
      using zs False zpos by (intro exI [of _ "z # zs"]) (simp add: add.assoc)
  qed
qed

lemma allRowSeats_int:
  assumes "length radii = length zs"
  shows "\<exists>cs. allRowSeats radii (map (\<lambda>z. Fin (of_int z)) zs) i = Some cs \<and>
              length cs = sum_list (map nat zs)"
  using assms
proof (induction zs arbitrary: radii i)
  case Nil
  then show ?case by simp
next
  case (Cons z zs)
  then obtain r rest where radii: "radii = r # rest" and len: "length rest = length zs"
    by (cases radii) auto
  obtain cs where cs: "allRowSeats rest (map (\<lambda>z. Fin (of_int z)) zs) (i + 1) = Some cs"
    "length cs = sum_list (map nat zs)"
    using Cons.IH [OF len] by blast
  have "iterations (Fin (of_int z)) = Some (nat z)" by simp
  then show ?case
    unfolding radii using cs by (simp add: length_rowSeats del: iterations.simps)
qed

lemma sum_list_nat:
  "\<forall>z\<in>set zs. 0 \<le> z \<Longrightarrow> sum_list (map nat zs) = nat (sum_list zs)"
proof (induction zs)
  case Nil
  then show ?case by simp
next
  case (Cons z zs)
  then have "0 \<le> z" "0 \<le> sum_list zs" by (simp_all add: sum_list_nonneg)
  with Cons show ?case by (simp add: nat_add_distrib)
qed

text \<open>
  When the last row is not left with a negative count, the seats are exactly
  \<open>totalSeats\<close>: this is the case the subtraction in the last row is written for.
\<close>

lemma generateParliamentSeats_exact:
  assumes rows: "2 \<le> rowCount" and a: "0 < a" and ab: "a \<le> b" and T: "0 \<le> T"
    and lastok: "js_le (Fin 0) (last (rowCounts T rowCount (rowRadii rowCount (Fin a) (Fin b))))"
  shows "\<exists>seats. generateParliamentSeats T rowCount (Fin a) (Fin b) = Some seats \<and>
           length seats = nat T"
proof -
  define step where "step = (b - a) / (real rowCount - 1)"
  define rs where "rs = map (\<lambda>i. a + real i * step) [0..<rowCount]"
  define as where "as = map (\<lambda>r. pi * r) rs"
  define tot where "tot = sum_list as"
  have radii: "rowRadii rowCount (Fin a) (Fin b) = map Fin rs"
    unfolding rs_def step_def rowRadii_finite [OF rows] by simp
  have step0: "0 \<le> step" unfolding step_def using ab rows by simp
  have rs_pos: "0 < r" if "r \<in> set rs" for r
  proof -
    from that obtain i where "r = a + real i * step" unfolding rs_def by auto
    moreover have "0 \<le> real i * step" using step0 by simp
    ultimately show ?thesis using a by linarith
  qed
  have as_pos: "0 < x" if "x \<in> set as" for x
    using that rs_pos unfolding as_def by auto
  have len_as: "length as = rowCount" unfolding as_def rs_def by simp
  then have as_ne: "as \<noteq> []" using rows by auto
  have tot_pos: "0 < tot"
  proof -
    obtain x xs where xs: "as = x # xs" using as_ne by (cases as) auto
    then have "0 < x" using as_pos by simp
    moreover have "0 \<le> sum_list xs"
      using as_pos xs by (intro sum_list_nonneg) (simp add: less_imp_le)
    ultimately show ?thesis unfolding tot_def xs by simp
  qed
  have arcs: "map (\<lambda>r. Math_PI * r) (map Fin rs) = map Fin as"
    unfolding as_def by (simp add: Math_PI_def)
  have sum: "d3_sum (map Fin as) = Fin tot"
    unfolding tot_def using as_pos by (intro d3_sum_pos) fastforce
  have cnts: "rowCounts T rowCount (map Fin rs)
                = rowCountsFrom (Fin (of_int T)) rowCount (Fin tot) 0 (Fin (of_int 0)) (map Fin as)"
    unfolding rowCounts_def Let_def arcs sum by simp
  have share: "\<forall>x\<in>set as. 0 \<le> x / tot"
    using as_pos tot_pos by (simp add: less_imp_le)
  obtain zs where zs:
    "rowCounts T rowCount (map Fin rs) = map (\<lambda>z. Fin (of_int z)) zs"
    "length zs = length as" "0 + sum_list zs = T" "\<forall>z\<in>set (butlast zs). 0 \<le> z"
    using rowCountsFrom_int [of tot as T 0 rowCount 0] tot_pos share T len_as as_ne
    unfolding cnts by auto
  have zs_ne: "zs \<noteq> []" using zs(2) as_ne by auto
  have "last (map (\<lambda>z. Fin (of_int z)) zs) = Fin (of_int (last zs))"
    using zs_ne by (simp add: last_map)
  then have "0 \<le> last zs" using lastok unfolding radii zs(1) by simp
  moreover have "zs = butlast zs @ [last zs]" using zs_ne by simp
  ultimately have all: "\<forall>z\<in>set zs. 0 \<le> z"
    using zs(4) by (metis Un_iff empty_iff insert_iff list.set(1,2) set_append)
  have "length (map Fin rs) = length zs"
    using zs(2) len_as unfolding rs_def by simp
  then obtain cs where cs: "allRowSeats (map Fin rs) (map (\<lambda>z. Fin (of_int z)) zs) 0 = Some cs"
    "length cs = sum_list (map nat zs)"
    using allRowSeats_int by blast
  have len: "length cs = nat T"
    using cs(2) zs(3) sum_list_nat [OF all] by simp
  have "allRowSeats (rowRadii rowCount (Fin a) (Fin b))
          (rowCounts T rowCount (rowRadii rowCount (Fin a) (Fin b))) 0 = Some cs"
    unfolding radii zs(1) by (rule cs(1))
  then have "generateParliamentSeats T rowCount (Fin a) (Fin b)
               = Some (numberSeats (array_sort (\<lambda>a b. theta b - theta a) cs))"
    by (rule generateParliamentSeats_Some)
  then show ?thesis
    using len by (simp add: length_numberSeats length_array_sort)
qed


end
